theory Spec2Isabelle
  imports Main "HOL-Library.Multiset"
begin

section \<open>Quota ledger (src/lib/buildQuota.ts)\<close>

subsection \<open>Data model\<close>

text \<open>
  \<^verbatim>\<open>BuildPlan = 'free' | 'pro' | 'studio'\<close>. The usage store is the parsed content of
  \<^verbatim>\<open>usage.json\<close>: three tables, each a \<^verbatim>\<open>Record<string, Record<string, number>>\<close>
  from an identity value to its buckets, and a bucket maps a time key to a count.
  Counts are JavaScript numbers holding integers; they are modelled as \<open>int\<close>.
\<close>

datatype BuildPlan = Free | Pro | Studio

type_synonym buckets = "string \<rightharpoonup> int"

record UsageStore =
  user :: "string \<rightharpoonup> buckets"
  device :: "string \<rightharpoonup> buckets"
  ipHourly :: "string \<rightharpoonup> buckets"

datatype scope = User | Device

record QuotaCounts =
  count_user :: int
  count_device :: int
  count_ipHourly :: int

record QuotaSnapshot =
  plan :: BuildPlan
  limit :: "int option"
  used :: int
  remaining :: "int option"
  weekStart :: string
  weekEnd :: string
  counts :: QuotaCounts

datatype reason = IpRateLimit | WeeklyLimit

record QuotaResult =
  allowed :: bool
  reason :: "reason option"
  snapshot :: QuotaSnapshot

text \<open>
  The parameter object of \<^verbatim>\<open>consumeQuota\<close> and \<^verbatim>\<open>getQuotaSnapshot\<close>; a field of type
  \<^verbatim>\<open>string | null | undefined\<close> is a \<open>string option\<close>.
\<close>

record QuotaParams =
  userId :: "string option"
  deviceId :: "string option"
  ip :: "string option"
  qplan :: BuildPlan

text \<open>
  Each of the two functions reads the clock twice (\<^verbatim>\<open>new Date()\<close> for the week key, then
  for the hour key). A reading is the number of milliseconds since the epoch.
\<close>

record Clock =
  weekNow :: int
  hourNow :: int

subsection \<open>Dates\<close>

text \<open>
  \<^verbatim>\<open>Date.prototype.toISOString\<close> for a time value in milliseconds: the proleptic Gregorian
  date of the UTC day, \<^verbatim>\<open>YYYY-MM-DDTHH:mm:ss.sssZ\<close>, with a sign and six digits for a year
  outside 0..9999.
\<close>

definition msPerDay :: int where
  "msPerDay = 24 * 60 * 60 * 1000"

definition msPerHour :: int where
  "msPerHour = 60 * 60 * 1000"

definition civil :: "int \<Rightarrow> int \<times> int \<times> int" where
  "civil days =
     (let z = days + 719468;
          era = z div 146097;
          doe = z mod 146097;
          yoe = (doe - doe div 1460 + doe div 36524 - doe div 146096) div 365;
          doy = doe - (365 * yoe + yoe div 4 - yoe div 100);
          mp = (5 * doy + 2) div 153;
          d = doy - (153 * mp + 2) div 5 + 1;
          m = (if mp < 10 then mp + 3 else mp - 9);
          y = yoe + era * 400 + (if m \<le> 2 then 1 else 0)
      in (y, m, d))"

definition digit :: "int \<Rightarrow> char" where
  "digit n = ''0123456789'' ! nat (n mod 10)"

fun pad :: "nat \<Rightarrow> int \<Rightarrow> string" where
  "pad 0 n = []"
| "pad (Suc k) n = pad k (n div 10) @ [digit n]"

definition isoYear :: "int \<Rightarrow> string" where
  "isoYear y =
     (if 0 \<le> y \<and> y \<le> 9999 then pad 4 y
      else if y < 0 then CHR ''-'' # pad 6 (- y)
      else CHR ''+'' # pad 6 y)"

definition toISOString :: "int \<Rightarrow> string" where
  "toISOString t =
     (let (y, m, d) = civil (t div msPerDay);
          r = t mod msPerDay
      in isoYear y @ ''-'' @ pad 2 m @ ''-'' @ pad 2 d @ ''T''
         @ pad 2 (r div msPerHour) @ '':'' @ pad 2 (r div 60000 mod 60) @ '':''
         @ pad 2 (r div 1000 mod 60) @ ''.'' @ pad 3 (r mod 1000) @ ''Z'')"

text \<open>\<^verbatim>\<open>getUTCDay\<close>: 0 is Sunday; the epoch was a Thursday.\<close>

definition getUTCDay :: "int \<Rightarrow> int" where
  "getUTCDay t = (t div msPerDay + 4) mod 7"

text \<open>
  \<^verbatim>\<open>new Date(Date.UTC(y, m, d))\<close> on the UTC year, month and day of a reading is the
  start of the reading's UTC day, and with the UTC hours added the start of its UTC hour
  (\<^verbatim>\<open>Date.UTC\<close> reads a year below 100 as a year of the twentieth century; the readings
  of \<^verbatim>\<open>new Date()\<close> are far from there).
\<close>

definition utcDayStart :: "int \<Rightarrow> int" where
  "utcDayStart t = (t div msPerDay) * msPerDay"

definition utcHourStart :: "int \<Rightarrow> int" where
  "utcHourStart t = (t div msPerHour) * msPerHour"

definition mondayOf :: "int \<Rightarrow> int" where
  "mondayOf date =
     (let utc = utcDayStart date;
          day = getUTCDay utc;
          diff = (day + 6) mod 7
      in utc - diff * 24 * 60 * 60 * 1000)"

definition getWeekKey :: "int \<Rightarrow> string" where
  "getWeekKey date = take 10 (toISOString (mondayOf date))"

text \<open>
  \<^verbatim>\<open>getWeekEnd\<close> parses the week key back into the Monday it names; here it is given
  that Monday.
\<close>

definition getWeekEnd :: "int \<Rightarrow> string" where
  "getWeekEnd monday = take 10 (toISOString (monday + 6 * 24 * 60 * 60 * 1000))"

definition getHourKey :: "int \<Rightarrow> string" where
  "getHourKey date = take 13 (toISOString (utcHourStart date))"

subsection \<open>Objects and their prototype\<close>

text \<open>
  The tables of the usage store are the plain objects that \<^verbatim>\<open>JSON.parse\<close> returns, and the
  code indexes them with identity values taken from request headers. A property read
  \<^verbatim>\<open>obj[key]\<close> finds an own property first and then goes to \<^verbatim>\<open>Object.prototype\<close>, so the
  value found under an identity is not always a bucket of the store: under \<^verbatim>\<open>__proto__\<close>
  it is \<^verbatim>\<open>Object.prototype\<close> itself, under the name of one of its methods it is that
  function, and under the name of a property that an earlier call has put on
  \<^verbatim>\<open>Object.prototype\<close> it is that number. \<^verbatim>\<open>JSON.stringify\<close> writes own properties only,
  so what is written on these objects never reaches \<^verbatim>\<open>usage.json\<close>; it stays in the
  process.

  The store keeps the own properties. The realm keeps what the process has added to
  \<^verbatim>\<open>Object.prototype\<close> and to its methods: numbers under time keys, since these are the only
  properties this module writes. A time key begins with a digit or a sign and so names no
  built-in property; \<^verbatim>\<open>Function.prototype\<close>, which no read of the module returns, carries
  no added property.
\<close>

datatype jsref = ObjectPrototype | Builtin string

definition builtinNames :: "string list" where
  "builtinNames =
     [''constructor'', ''__defineGetter__'', ''__defineSetter__'', ''hasOwnProperty'',
      ''__lookupGetter__'', ''__lookupSetter__'', ''isPrototypeOf'', ''propertyIsEnumerable'',
      ''toString'', ''valueOf'', ''toLocaleString'']"

record Realm =
  protoProps :: "string \<rightharpoonup> int"
  fnProps :: "string \<Rightarrow> (string \<rightharpoonup> int)"

definition cleanRealm :: Realm where
  "cleanRealm = \<lparr> protoProps = Map.empty, fnProps = (\<lambda>f. Map.empty) \<rparr>"

datatype jsval = JUndefined | JNum int | JBucket buckets | JRef jsref

datatype exn = TypeError string

text \<open>\<^verbatim>\<open>t[id]\<close> for a table of the store.\<close>

definition tableGet :: "Realm \<Rightarrow> (string \<rightharpoonup> buckets) \<Rightarrow> string \<Rightarrow> jsval" where
  "tableGet g t ident =
     (case t ident of
        Some b \<Rightarrow> JBucket b
      | None \<Rightarrow>
          if ident = ''__proto__'' then JRef ObjectPrototype
          else if ident \<in> set builtinNames then JRef (Builtin ident)
          else (case protoProps g ident of Some n \<Rightarrow> JNum n | None \<Rightarrow> JUndefined))"

text \<open>\<^verbatim>\<open>!v\<close>: objects and functions are truthy, a number is falsy when it is zero.\<close>

definition falsy :: "jsval \<Rightarrow> bool" where
  "falsy v = (case v of JUndefined \<Rightarrow> True | JNum n \<Rightarrow> n = 0 | JBucket b \<Rightarrow> False | JRef r \<Rightarrow> False)"

definition orZero :: "int option \<Rightarrow> int" where
  "orZero v = (case v of None \<Rightarrow> 0 | Some c \<Rightarrow> c)"

text \<open>
  \<^verbatim>\<open>v?.[key] || 0\<close> for a time key: the own property of the object found, else the one
  inherited from \<^verbatim>\<open>Object.prototype\<close>, else 0. A number has no own property and inherits
  through \<^verbatim>\<open>Number.prototype\<close>.
\<close>

definition numGet :: "Realm \<Rightarrow> jsval \<Rightarrow> string \<Rightarrow> int" where
  "numGet g v key =
     (case v of
        JUndefined \<Rightarrow> 0
      | JNum n \<Rightarrow> orZero (protoProps g key)
      | JBucket b \<Rightarrow> (case b key of Some c \<Rightarrow> c | None \<Rightarrow> orZero (protoProps g key))
      | JRef ObjectPrototype \<Rightarrow> orZero (protoProps g key)
      | JRef (Builtin f) \<Rightarrow>
          (case fnProps g f key of Some c \<Rightarrow> c | None \<Rightarrow> orZero (protoProps g key)))"

text \<open>Decimal digits of a number, for the message of the exception below.\<close>

fun decimal :: "nat \<Rightarrow> string" where
  "decimal n = (if n < 10 then [digit (int n)] else decimal (n div 10) @ [digit (int n)])"

definition showInt :: "int \<Rightarrow> string" where
  "showInt n = (if n < 0 then CHR ''-'' # decimal (nat (- n)) else decimal (nat n))"

text \<open>
  \<^verbatim>\<open>if (!t[id]) t[id] = {}; t[id][key] = (t[id][key] || 0) + 1\<close>. The first statement
  gives the table an own empty bucket when nothing truthy is found under the identity. The
  second writes on whatever is then found: on the bucket, on \<^verbatim>\<open>Object.prototype\<close>, on one of
  its methods, and on a number it throws (the module is strict code). The table and the
  realm after the two statements, or the exception.
\<close>

definition incrementAt ::
  "Realm \<Rightarrow> (string \<rightharpoonup> buckets) \<Rightarrow> string \<Rightarrow> string
     \<Rightarrow> exn + ((string \<rightharpoonup> buckets) \<times> Realm)" where
  "incrementAt g t ident key =
     (let t1 = (if falsy (tableGet g t ident) then t(ident \<mapsto> Map.empty) else t);
          found = tableGet g t1 ident;
          v = numGet g found key + 1
      in case found of
           JBucket b \<Rightarrow> Inr (t1(ident \<mapsto> b(key \<mapsto> v)), g)
         | JRef ObjectPrototype \<Rightarrow> Inr (t1, g\<lparr> protoProps := (protoProps g)(key \<mapsto> v) \<rparr>)
         | JRef (Builtin f) \<Rightarrow>
             Inr (t1, g\<lparr> fnProps := (fnProps g)(f := (fnProps g f)(key \<mapsto> v)) \<rparr>)
         | JNum n \<Rightarrow>
             Inl (TypeError (''Cannot create property '' @ [CHR 0x27] @ key @ [CHR 0x27]
                             @ '' on number '' @ [CHR 0x27] @ showInt n @ [CHR 0x27]))
         | JUndefined \<Rightarrow>
             Inl (TypeError ''Cannot read properties of undefined''))"

subsection \<open>Counters\<close>

definition getLimitForPlan :: "BuildPlan \<Rightarrow> int option" where
  "getLimitForPlan p = (if p = Studio then None else if p = Pro then Some 15 else Some 3)"

definition table :: "scope \<Rightarrow> UsageStore \<Rightarrow> (string \<rightharpoonup> buckets)" where
  "table sc usage = (case sc of User \<Rightarrow> user usage | Device \<Rightarrow> device usage)"

definition getScopeCount :: "Realm \<Rightarrow> UsageStore \<Rightarrow> scope \<Rightarrow> string \<Rightarrow> string \<Rightarrow> int" where
  "getScopeCount g usage sc ident weekKey =
     (if ident = [] then 0 else numGet g (tableGet g (table sc usage) ident) weekKey)"

definition incrementScope ::
  "Realm \<Rightarrow> UsageStore \<Rightarrow> scope \<Rightarrow> string \<Rightarrow> string \<Rightarrow> exn + (UsageStore \<times> Realm)" where
  "incrementScope g usage sc ident weekKey =
     (if ident = [] then Inr (usage, g)
      else (case incrementAt g (table sc usage) ident weekKey of
              Inl e \<Rightarrow> Inl e
            | Inr (t, g') \<Rightarrow>
                (case sc of
                   User \<Rightarrow> Inr (usage\<lparr>user := t\<rparr>, g')
                 | Device \<Rightarrow> Inr (usage\<lparr>device := t\<rparr>, g'))))"

definition getIpHourlyCount :: "Realm \<Rightarrow> UsageStore \<Rightarrow> string \<Rightarrow> string \<Rightarrow> int" where
  "getIpHourlyCount g usage addr hourKey =
     (if addr = [] then 0 else numGet g (tableGet g (ipHourly usage) addr) hourKey)"

definition incrementIpHourly ::
  "Realm \<Rightarrow> UsageStore \<Rightarrow> string \<Rightarrow> string \<Rightarrow> exn + (UsageStore \<times> Realm)" where
  "incrementIpHourly g usage addr hourKey =
     (if addr = [] then Inr (usage, g)
      else (case incrementAt g (ipHourly usage) addr hourKey of
              Inl e \<Rightarrow> Inl e
            | Inr (t, g') \<Rightarrow> Inr (usage\<lparr>ipHourly := t\<rparr>, g')))"

definition IP_HOURLY_LIMIT :: int where
  "IP_HOURLY_LIMIT = 30"

text \<open>\<^verbatim>\<open>x || ''\<close> for an optional string.\<close>

definition orEmpty :: "string option \<Rightarrow> string" where
  "orEmpty s = (case s of None \<Rightarrow> [] | Some v \<Rightarrow> v)"

subsection \<open>Snapshot and consumption\<close>

definition getQuotaSnapshot ::
  "Realm \<Rightarrow> UsageStore \<Rightarrow> Clock \<Rightarrow> QuotaParams \<Rightarrow> QuotaSnapshot" where
  "getQuotaSnapshot g usage ck params =
     (let weekKey = getWeekKey (weekNow ck);
          lim = getLimitForPlan (qplan params);
          userCount = getScopeCount g usage User (orEmpty (userId params)) weekKey;
          deviceCount = getScopeCount g usage Device (orEmpty (deviceId params)) weekKey;
          hourKey = getHourKey (hourNow ck);
          ipHourlyCount = getIpHourlyCount g usage (orEmpty (ip params)) hourKey;
          u = max userCount deviceCount
      in \<lparr> plan = qplan params,
           limit = lim,
           used = u,
           remaining = (case lim of None \<Rightarrow> None | Some l \<Rightarrow> Some (max (l - u) 0)),
           weekStart = weekKey,
           weekEnd = getWeekEnd (mondayOf (weekNow ck)),
           counts = \<lparr> count_user = userCount, count_device = deviceCount,
                      count_ipHourly = ipHourlyCount \<rparr> \<rparr>)"

text \<open>
  \<^verbatim>\<open>consumeQuota\<close> in a process with realm \<open>g\<close>, on the store read from the usage file:
  the result or the exception, the store the file holds afterwards, and the realm
  afterwards. \<open>ck\<close> are the clock readings of \<^verbatim>\<open>consumeQuota\<close> itself, \<open>sk\<close> those of the
  \<^verbatim>\<open>getQuotaSnapshot\<close> call that builds the returned snapshot. Only the last branch calls
  \<^verbatim>\<open>writeUsage\<close>, after the three increments; an increment that throws leaves the file as
  it was, and the realm as the increments before it left it.
\<close>

definition consumeQuota ::
  "Realm \<Rightarrow> UsageStore \<Rightarrow> Clock \<Rightarrow> Clock \<Rightarrow> QuotaParams
     \<Rightarrow> (exn + QuotaResult) \<times> UsageStore \<times> Realm" where
  "consumeQuota g usage ck sk params =
     (let weekKey = getWeekKey (weekNow ck);
          hourKey = getHourKey (hourNow ck);
          lim = getLimitForPlan (qplan params);
          userCount = getScopeCount g usage User (orEmpty (userId params)) weekKey;
          deviceCount = getScopeCount g usage Device (orEmpty (deviceId params)) weekKey;
          ipHourlyCount = getIpHourlyCount g usage (orEmpty (ip params)) hourKey;
          maxCount = max userCount deviceCount
      in if ipHourlyCount \<ge> IP_HOURLY_LIMIT then
           (Inr \<lparr> allowed = False, reason = Some IpRateLimit,
                  snapshot = getQuotaSnapshot g usage sk params \<rparr>, usage, g)
         else if (case lim of None \<Rightarrow> False | Some l \<Rightarrow> maxCount \<ge> l) then
           (Inr \<lparr> allowed = False, reason = Some WeeklyLimit,
                  snapshot = getQuotaSnapshot g usage sk params \<rparr>, usage, g)
         else
           (case incrementScope g usage User (orEmpty (userId params)) weekKey of
              Inl e \<Rightarrow> (Inl e, usage, g)
            | Inr (u1, g1) \<Rightarrow>
                (case incrementScope g1 u1 Device (orEmpty (deviceId params)) weekKey of
                   Inl e \<Rightarrow> (Inl e, usage, g1)
                 | Inr (u2, g2) \<Rightarrow>
                     (case incrementIpHourly g2 u2 (orEmpty (ip params)) hourKey of
                        Inl e \<Rightarrow> (Inl e, usage, g2)
                      | Inr (u3, g3) \<Rightarrow>
                          (Inr \<lparr> allowed = True, reason = None,
                                 snapshot = getQuotaSnapshot g3 u3 sk params \<rparr>, u3, g3)))))"

definition emptyUsage :: UsageStore where
  "emptyUsage = \<lparr> user = Map.empty, device = Map.empty, ipHourly = Map.empty \<rparr>"

text \<open>
  The two rejection tests of \<^verbatim>\<open>consumeQuota\<close>, as predicates of the store it read:
  \<^verbatim>\<open>ipHourlyCount >= IP_HOURLY_LIMIT\<close> and \<^verbatim>\<open>limit !== null && maxCount >= limit\<close>.
\<close>

definition ipReached :: "Realm \<Rightarrow> UsageStore \<Rightarrow> Clock \<Rightarrow> QuotaParams \<Rightarrow> bool" where
  "ipReached g usage ck params =
     (getIpHourlyCount g usage (orEmpty (ip params)) (getHourKey (hourNow ck))
        \<ge> IP_HOURLY_LIMIT)"

definition weeklyReached :: "Realm \<Rightarrow> UsageStore \<Rightarrow> Clock \<Rightarrow> QuotaParams \<Rightarrow> bool" where
  "weeklyReached g usage ck params =
     (case getLimitForPlan (qplan params) of None \<Rightarrow> False
      | Some l \<Rightarrow>
          max (getScopeCount g usage User (orEmpty (userId params)) (getWeekKey (weekNow ck)))
              (getScopeCount g usage Device (orEmpty (deviceId params)) (getWeekKey (weekNow ck)))
            \<ge> l)"

text \<open>
  A run of submissions by one caller in one process: \<^verbatim>\<open>consumeQuota\<close> called once per
  pair of clock readings, each call on the store and the realm the previous one left. The
  results, in order.
\<close>

fun submissions ::
  "Realm \<Rightarrow> UsageStore \<Rightarrow> (Clock \<times> Clock) list \<Rightarrow> QuotaParams \<Rightarrow> (exn + QuotaResult) list" where
  "submissions g usage [] params = []"
| "submissions g usage (c # cs) params =
     fst (consumeQuota g usage (fst c) (snd c) params)
       # submissions (snd (snd (consumeQuota g usage (fst c) (snd c) params)))
           (fst (snd (consumeQuota g usage (fst c) (snd c) params))) cs params"

text \<open>
  The same run when the server process is started afresh before every call: the store is
  the file the previous call left, the realm is that of a new process.
\<close>

fun restarted ::
  "UsageStore \<Rightarrow> (Clock \<times> Clock) list \<Rightarrow> QuotaParams \<Rightarrow> (exn + QuotaResult) list" where
  "restarted usage [] params = []"
| "restarted usage (c # cs) params =
     fst (consumeQuota cleanRealm usage (fst c) (snd c) params)
       # restarted (fst (snd (consumeQuota cleanRealm usage (fst c) (snd c) params))) cs params"

text \<open>Whether a result is an allowed call, and the reason of a rejection.\<close>

definition isAllowed :: "exn + QuotaResult \<Rightarrow> bool" where
  "isAllowed r = (case r of Inl e \<Rightarrow> False | Inr q \<Rightarrow> allowed q)"

definition reasonOf :: "exn + QuotaResult \<Rightarrow> reason option" where
  "reasonOf r = (case r of Inl e \<Rightarrow> None | Inr q \<Rightarrow> reason q)"

text \<open>
  A week of the ledger starts on a Monday at 00:00 UTC: \<open>m\<close> is such an instant (the epoch
  was a Thursday, so the first Monday is four days after it), and \<open>inWeekOf m t\<close> says
  that the reading \<open>t\<close> falls in the seven days from \<open>m\<close>.
\<close>

definition isMondayStart :: "int \<Rightarrow> bool" where
  "isMondayStart m = (m mod (7 * msPerDay) = 4 * msPerDay)"

definition inWeekOf :: "int \<Rightarrow> int \<Rightarrow> bool" where
  "inWeekOf m t = (m \<le> t \<and> t < m + 7 * msPerDay)"

text \<open>
  An identity value that names nothing on \<^verbatim>\<open>Object.prototype\<close> as the language defines it,
  and a realm in which \<^verbatim>\<open>Object.prototype\<close> has been given no further property. The empty
  string is a plain key.
\<close>

definition plainKey :: "string \<Rightarrow> bool" where
  "plainKey ident = (ident \<noteq> ''__proto__'' \<and> ident \<notin> set builtinNames)"

definition unextended :: "Realm \<Rightarrow> bool" where
  "unextended g = (protoProps g = Map.empty)"

text \<open>The own bucket of an identity in a table, empty when the table has none.\<close>

definition ownBucket :: "(string \<rightharpoonup> buckets) \<Rightarrow> string \<Rightarrow> buckets" where
  "ownBucket t ident = (case t ident of None \<Rightarrow> Map.empty | Some b \<Rightarrow> b)"

text \<open>What the store itself holds under an identity and a time key, 0 when nothing.\<close>

definition stored :: "(string \<rightharpoonup> buckets) \<Rightarrow> string \<Rightarrow> string \<Rightarrow> int" where
  "stored t ident key = orZero (ownBucket t ident key)"

definition hasOwn :: "(string \<rightharpoonup> buckets) \<Rightarrow> string \<Rightarrow> bool" where
  "hasOwn t ident = (case t ident of None \<Rightarrow> False | Some b \<Rightarrow> True)"

text \<open>
  The store with the counters of a caller's non-empty identities raised by one: the user and
  device counters in the bucket of the week, the address counter in the bucket of the hour.
  The table of a scope whose identity is empty stays as it is.
\<close>

definition raise :: "(string \<rightharpoonup> buckets) \<Rightarrow> string \<Rightarrow> string \<Rightarrow> (string \<rightharpoonup> buckets)" where
  "raise t ident key =
     (if ident = [] then t
      else t(ident \<mapsto> (ownBucket t ident)(key \<mapsto> stored t ident key + 1)))"

definition written :: "UsageStore \<Rightarrow> Clock \<Rightarrow> QuotaParams \<Rightarrow> UsageStore" where
  "written usage ck params =
     usage\<lparr> user := raise (user usage) (orEmpty (userId params)) (getWeekKey (weekNow ck)),
            device := raise (device usage) (orEmpty (deviceId params)) (getWeekKey (weekNow ck)),
            ipHourly := raise (ipHourly usage) (orEmpty (ip params)) (getHourKey (hourNow ck)) \<rparr>"

text \<open>
  The ledger of one caller after \<open>k\<close> allowed submissions in the week \<open>wk\<close>, starting
  from the empty store: each scope with an identity has counted \<open>k\<close>, and no hour bucket
  of the caller's address has counted more.
\<close>

definition after_k :: "Realm \<Rightarrow> UsageStore \<Rightarrow> QuotaParams \<Rightarrow> string \<Rightarrow> int \<Rightarrow> bool" where
  "after_k g u p wk k =
     (getScopeCount g u User (orEmpty (userId p)) wk = (if orEmpty (userId p) = [] then 0 else k)
      \<and> getScopeCount g u Device (orEmpty (deviceId p)) wk
            = (if orEmpty (deviceId p) = [] then 0 else k)
      \<and> (\<forall>h. getIpHourlyCount g u (orEmpty (ip p)) h \<le> k))"

subsection \<open>Example stores and calls\<close>

definition exClock :: Clock where
  "exClock = \<lparr> weekNow = 1793613600000, hourNow = 1793613600000 \<rparr>"

definition exParams :: QuotaParams where
  "exParams = \<lparr> userId = Some ''u1'', deviceId = Some ''d1'', ip = Some ''10.0.0.1'',
                qplan = Free \<rparr>"

definition exUsageIpFull :: UsageStore where
  "exUsageIpFull = emptyUsage\<lparr> ipHourly := [''10.0.0.1'' \<mapsto> [''2026-11-02T10'' \<mapsto> 30]] \<rparr>"

definition exUsageWeekFull :: UsageStore where
  "exUsageWeekFull = emptyUsage\<lparr> user := [''u1'' \<mapsto> [''2026-11-02'' \<mapsto> 3]] \<rparr>"

definition exAnonParams :: QuotaParams where
  "exAnonParams = \<lparr> userId = Some [], deviceId = Some ''d1'', ip = Some ''10.0.0.1'',
                    qplan = Free \<rparr>"

definition exNoIpParams :: QuotaParams where
  "exNoIpParams = \<lparr> userId = Some ''u1'', deviceId = Some ''d1'', ip = Some [],
                    qplan = Free \<rparr>"

definition exStudioParams :: QuotaParams where
  "exStudioParams = \<lparr> userId = Some ''u1'', deviceId = Some ''d1'', ip = Some ''10.0.0.1'',
                      qplan = Studio \<rparr>"

text \<open>A call whose four clock readings are all \<open>t\<close>.\<close>

definition exCall :: "int \<Rightarrow> Clock \<times> Clock" where
  "exCall t = (\<lparr> weekNow = t, hourNow = t \<rparr>, \<lparr> weekNow = t, hourNow = t \<rparr>)"

text \<open>A caller whose user and device identity are both the string \<^verbatim>\<open>__proto__\<close>.\<close>

definition exProtoParams :: QuotaParams where
  "exProtoParams = \<lparr> userId = Some ''__proto__'', deviceId = Some ''__proto__'',
                     ip = Some ''10.0.0.1'', qplan = Free \<rparr>"

section \<open>Build pipeline (src/lib/buildRunner.ts)\<close>

subsection \<open>Strings\<close>

text \<open>
  The string operations the pipeline uses, on 8-bit characters: \<^verbatim>\<open>trim\<close> (ASCII white
  space), \<^verbatim>\<open>split('\n')\<close>, \<^verbatim>\<open>endsWith\<close>, \<^verbatim>\<open>join\<close> of path segments with a slash (the
  paths are names handed to the outside world, so the normalisation that \<^verbatim>\<open>path.join\<close>
  adds is left out), \<^verbatim>\<open>Array.prototype.join\<close>, and the truthiness of an optional string.
\<close>

type_synonym buffer = "nat list"

definition isWs :: "char \<Rightarrow> bool" where
  "isWs c = (c \<in> set [CHR 0x09, CHR 0x0A, CHR 0x0B, CHR 0x0C, CHR 0x0D, CHR '' ''])"

definition trim :: "string \<Rightarrow> string" where
  "trim s = rev (dropWhile isWs (rev (dropWhile isWs s)))"

fun splitOn :: "char \<Rightarrow> string \<Rightarrow> string list" where
  "splitOn c [] = [[]]"
| "splitOn c (x # xs) =
     (if x = c then [] # splitOn c xs
      else (case splitOn c xs of [] \<Rightarrow> [[x]] | y # ys \<Rightarrow> (x # y) # ys))"

definition startsWith :: "string \<Rightarrow> string \<Rightarrow> bool" where
  "startsWith s p = (take (length p) s = p)"

definition endsWith :: "string \<Rightarrow> string \<Rightarrow> bool" where
  "endsWith s suf = (length suf \<le> length s \<and> drop (length s - length suf) s = suf)"

definition joinPath :: "string \<Rightarrow> string \<Rightarrow> string" where
  "joinPath a b = a @ ''/'' @ b"

fun joinWith :: "string \<Rightarrow> string list \<Rightarrow> string" where
  "joinWith sep [] = []"
| "joinWith sep [x] = x"
| "joinWith sep (x # y # ys) = x @ sep @ joinWith sep (y # ys)"

definition truthy :: "string option \<Rightarrow> bool" where
  "truthy s = (case s of None \<Rightarrow> False | Some v \<Rightarrow> v \<noteq> [])"

text \<open>
  \<^verbatim>\<open>stdout.match(/SHA256: ([a-fA-F0-9: ]+)/)\<close>: the leftmost place where the text
  \<^verbatim>\<open>SHA256: \<close> is followed by at least one character of the class; the group is the
  longest run of such characters.
\<close>

definition hexish :: "char \<Rightarrow> bool" where
  "hexish c = (c \<in> set ''abcdefABCDEF0123456789: '')"

fun matchSha :: "string \<Rightarrow> string option" where
  "matchSha [] = None"
| "matchSha (c # cs) =
     (if startsWith (c # cs) ''SHA256: '' \<and> takeWhile hexish (drop 8 (c # cs)) \<noteq> []
      then Some (takeWhile hexish (drop 8 (c # cs)))
      else matchSha cs)"

subsection \<open>Options, result and the outside world\<close>

record KeystoreInput =
  ks_buffer :: buffer
  ks_alias :: "string option"
  ks_pass :: "string option"
  ks_keyPass :: "string option"

record BuildOptions =
  zipBuffer :: buffer
  keystore :: "KeystoreInput option"
  skipZipAlign :: bool

record BuildResult =
  apkBuffer :: buffer
  apkName :: string
  sha256 :: string

text \<open>
  An exception is the message of the \<^verbatim>\<open>Error\<close> thrown; a computation that may throw
  returns \<open>Inl\<close> of the message or \<open>Inr\<close> of its value.

  The file-system steps whose only outcome that matters is whether they throw. A step
  covers the calls between two checks of the source: \<open>StageInput\<close> is the \<^verbatim>\<open>mkdir\<close> of
  the temporary directory and the two \<^verbatim>\<open>writeFile\<close> calls, \<open>OpenZip\<close> is \<^verbatim>\<open>new AdmZip\<close>,
  \<open>InstantiateTemplate\<close> is everything from copying the template to writing the assets,
  \<open>LocalProperties\<close>, \<open>ReadApkDir\<close>, \<open>MakeOutDir\<close> and \<open>WriteKeystore\<close> are single calls.
\<close>

datatype ioStage =
  StageInput | OpenZip | InstantiateTemplate | LocalProperties | ReadApkDir | MakeOutDir
  | WriteKeystore

text \<open>
  What one run of the pipeline meets outside the program: the process environment and
  working directory, the name chosen for the temporary directory, which files exist, what
  each external command returns (\<open>Inl\<close> when the command fails, \<open>Inr\<close> of its standard
  output otherwise), directory listings and file contents.
\<close>

record World =
  getenv :: "string \<Rightarrow> string option"
  cwd :: string
  tempDir :: string
  existsSync :: "string \<Rightarrow> bool"
  ioError :: "ioStage \<Rightarrow> string option"
  isBundleZip :: "buffer \<Rightarrow> bool"
  exec :: "string \<Rightarrow> string + string"
  readdir :: "string \<Rightarrow> string list"
  readFile :: "string \<Rightarrow> string + buffer"

definition io :: "World \<Rightarrow> ioStage \<Rightarrow> string + unit" where
  "io w st = (case ioError w st of Some msg \<Rightarrow> Inl msg | None \<Rightarrow> Inr ())"

text \<open>Sequencing of computations that may throw.\<close>

definition andThen :: "string + 'a \<Rightarrow> ('a \<Rightarrow> string + 'b) \<Rightarrow> string + 'b" where
  "andThen m f = (case m of Inl e \<Rightarrow> Inl e | Inr v \<Rightarrow> f v)"

subsection \<open>resolveSignerJar\<close>

definition signerCandidates :: "World \<Rightarrow> string list" where
  "signerCandidates w =
     map the (filter truthy
       [getenv w ''APKSIGNER_JAR'',
        getenv w ''APK_SIGNER_JAR'',
        Some (joinPath (cwd w) ''uber-apk-signer.jar''),
        Some (joinPath (joinPath (cwd w) ''..'') ''uber-apk-signer.jar'')])"

definition resolveSignerJar :: "World \<Rightarrow> string + string" where
  "resolveSignerJar w =
     (case find (existsSync w) (signerCandidates w) of
        Some candidate \<Rightarrow> Inr candidate
      | None \<Rightarrow> Inl (''APK signer JAR not found. Tried: '' @ joinWith '', '' (signerCandidates w)))"

subsection \<open>runAndroidBuild\<close>

text \<open>
  The compilation of a source bundle (the body of \<^verbatim>\<open>if (isBundle)\<close>): the path of the
  unsigned binary, or the exception.
\<close>

definition firstTruthy :: "string option \<Rightarrow> string option \<Rightarrow> string option" where
  "firstTruthy a b = (if truthy a then a else if truthy b then b else None)"

definition gradleCmd :: "World \<Rightarrow> string" where
  "gradleCmd w =
     (if truthy (getenv w ''GRADLE_CMD'') then the (getenv w ''GRADLE_CMD'')
      else if truthy (getenv w ''GRADLE_HOME'')
      then joinPath (joinPath (the (getenv w ''GRADLE_HOME'')) ''bin'') ''gradle''
      else ''gradle'')"

definition compileBundle :: "World \<Rightarrow> string + string" where
  "compileBundle w =
     (let templateDir = joinPath (cwd w) ''android-template'';
          buildDir = joinPath (tempDir w) ''android-project'';
          apkOutputDir = joinPath buildDir ''app/build/outputs/apk/release''
      in if \<not> existsSync w templateDir
         then Inl ''Android template missing. Expected android-template folder in build engine.''
         else andThen (io w InstantiateTemplate) (\<lambda>_.
           case firstTruthy (getenv w ''ANDROID_HOME'') (getenv w ''ANDROID_SDK_ROOT'') of
             None \<Rightarrow> Inl (''ANDROID_HOME or ANDROID_SDK_ROOT is not set. ''
                          @ ''Install Android SDK and set the environment variable.'')
           | Some androidHome \<Rightarrow>
               andThen (io w LocalProperties) (\<lambda>_.
               andThen (exec w (gradleCmd w @ '' -p '' @ buildDir @ '' :app:assembleRelease'')) (\<lambda>_.
               andThen (if existsSync w apkOutputDir
                        then andThen (io w ReadApkDir) (\<lambda>_. Inr (readdir w apkOutputDir))
                        else Inr []) (\<lambda>apkFiles.
                 case find (\<lambda>f. endsWith f ''.apk'') apkFiles of
                   None \<Rightarrow> Inl ''Gradle build completed but no APK was found in the release output.''
                 | Some unsignedName \<Rightarrow> Inr (joinPath apkOutputDir unsignedName))))))"

text \<open>
  The command line of the signing utility: the keystore flags are added only for a keystore
  with a buffer, a non-empty alias and a non-empty store password. A \<^verbatim>\<open>Buffer\<close> is an
  object and so always truthy: a keystore that is present has one.
\<close>

definition usesKeystore :: "BuildOptions \<Rightarrow> bool" where
  "usesKeystore options =
     (case keystore options of None \<Rightarrow> False
      | Some ks \<Rightarrow> truthy (ks_alias ks) \<and> truthy (ks_pass ks))"

definition signCommand :: "string \<Rightarrow> string \<Rightarrow> string \<Rightarrow> string \<Rightarrow> BuildOptions \<Rightarrow> string" where
  "signCommand jarPath unsignedApkPath outDir ksPath options =
     ''java -jar '' @ jarPath @ '' -a '' @ unsignedApkPath @ '' -o '' @ outDir
     @ (if skipZipAlign options then '' --skipZipAlign'' else [])
     @ (if usesKeystore options
        then '' --ks '' @ ksPath
             @ '' --ksAlias '' @ the (ks_alias (the (keystore options)))
             @ '' --ksPass '' @ the (ks_pass (the (keystore options)))
             @ (if truthy (ks_keyPass (the (keystore options)))
                then '' --ksKeyPass '' @ the (ks_keyPass (the (keystore options)))
                else [])
        else [])"

text \<open>
  What the pipeline has in hand once the signed binary is read: the signer, the name and
  path of the signed file, and its bytes.
\<close>

record Signed =
  sg_jarPath :: string
  sg_name :: string
  sg_path :: string
  sg_buffer :: buffer

text \<open>
  Lines 49 to 187 of \<^verbatim>\<open>runAndroidBuild\<close>: everything before the signing utility is run.
  The signer found and the command line built, or the exception.
\<close>

definition prepareSign :: "World \<Rightarrow> BuildOptions \<Rightarrow> string + (string \<times> string)" where
  "prepareSign w options =
     andThen (resolveSignerJar w) (\<lambda>jarPath.
     andThen (io w StageInput) (\<lambda>_.
     andThen (io w OpenZip) (\<lambda>_.
     andThen (if isBundleZip w (zipBuffer options) then compileBundle w
              else Inr (joinPath (tempDir w) ''input.apk'')) (\<lambda>unsignedApkPath.
     andThen (io w MakeOutDir) (\<lambda>_.
     andThen (if usesKeystore options then io w WriteKeystore else Inr ()) (\<lambda>_.
       Inr (jarPath,
            signCommand jarPath unsignedApkPath (joinPath (tempDir w) ''out'')
              (joinPath (tempDir w) ''user.keystore'') options)))))))"

text \<open>Lines 189 to 198: the signing run, the listing of its output and the read.\<close>

definition signApk :: "World \<Rightarrow> BuildOptions \<Rightarrow> string + Signed" where
  "signApk w options =
     andThen (prepareSign w options) (\<lambda>(jarPath, command).
     andThen (exec w command) (\<lambda>_.
     andThen (exec w (''ls '' @ joinPath (tempDir w) ''out'')) (\<lambda>files.
       case find (\<lambda>f. endsWith f ''.apk'') (splitOn CHR 0x0A (trim files)) of
         None \<Rightarrow> Inl (''Failed to generate signed APK. Ensure the ZIP is a valid ''
                      @ ''DroidForge Studio bundle, Android project, or APK.'')
       | Some signedApkName \<Rightarrow>
           andThen (readFile w (joinPath (joinPath (tempDir w) ''out'') signedApkName))
             (\<lambda>signedApkBuffer.
               Inr \<lparr> sg_jarPath = jarPath, sg_name = signedApkName,
                     sg_path = joinPath (joinPath (tempDir w) ''out'') signedApkName,
                     sg_buffer = signedApkBuffer \<rparr>))))"

text \<open>
  Lines 200 to 207: the verification run and the parse of its report. The exception of a
  failed run is caught; the hash stays at its initial value unless the pattern matches.
\<close>

definition verifyCommand :: "Signed \<Rightarrow> string" where
  "verifyCommand sg = ''java -jar '' @ sg_jarPath sg @ '' -y -a '' @ sg_path sg @ '' --verbose''"

definition extractSha :: "World \<Rightarrow> Signed \<Rightarrow> string" where
  "extractSha w sg =
     (case exec w (verifyCommand sg) of
        Inl err \<Rightarrow> ''Unknown''
      | Inr out \<Rightarrow> (case matchSha out of None \<Rightarrow> ''Unknown'' | Some m \<Rightarrow> trim m))"

text \<open>
  The whole function. The \<^verbatim>\<open>finally\<close> block removes the temporary directory and swallows
  a failure to do so; it has no part in the result.
\<close>

definition runAndroidBuild :: "World \<Rightarrow> BuildOptions \<Rightarrow> string + BuildResult" where
  "runAndroidBuild w options =
     andThen (signApk w options) (\<lambda>sg.
       Inr \<lparr> apkBuffer = sg_buffer sg, apkName = sg_name sg, sha256 = extractSha w sg \<rparr>)"

section \<open>Job store and queue worker (src/studio/components/EditorLayout.tsx, the module lib/buildQueue)\<close>

subsection \<open>Data model\<close>

datatype BuildStatus = Queued | Running | Completed | Failed

record BuildInput =
  in_filename :: string
  in_size :: nat
  in_packageName :: "string option"
  in_versionName :: "string option"
  in_versionCode :: "int option"
  hasKeystore :: bool
  in_skipZipAlign :: bool

record Artifact =
  art_name :: string
  art_size :: nat
  art_sha256 :: string

record BuildJob =
  jobId :: string
  status :: BuildStatus
  createdAt :: int
  startedAt :: "int option"
  completedAt :: "int option"
  error :: "string option"
  input :: BuildInput
  artifact :: "Artifact option"

record BuildSettingsMeta =
  bs_packageName :: "string option"
  bs_versionName :: "string option"
  bs_versionCode :: "int option"

text \<open>
  The staging directory \<^verbatim>\<open>queue/<id>\<close> of a job: \<^verbatim>\<open>input.zip\<close>, and when they were
  written \<^verbatim>\<open>keystore.jks\<close> and \<^verbatim>\<open>keystore.json\<close>. The JSON file is held as the object it
  serialises.
\<close>

record KeystoreMeta =
  km_alias :: "string option"
  km_pass :: "string option"
  km_keyPass :: "string option"

record Staged =
  inputZip :: buffer
  keystoreJks :: "buffer option"
  keystoreJson :: "KeystoreMeta option"

text \<open>
  The durable state: the array in \<^verbatim>\<open>jobs.json\<close>, the staging directories under
  \<^verbatim>\<open>queue/\<close> and the stored artifacts under \<^verbatim>\<open>artifacts/\<close>, both by job id, and the
  module's \<^verbatim>\<open>isProcessing\<close> flag. \<open>started\<close> is not a variable of the program: it
  records the ids of the jobs the worker has started, in order.
\<close>

record System =
  jobs :: "BuildJob list"
  queue :: "string \<rightharpoonup> Staged"
  artifacts :: "string \<rightharpoonup> (string \<times> buffer)"
  isProcessing :: bool
  started :: "string list"

definition emptySystem :: System where
  "emptySystem = \<lparr> jobs = [], queue = Map.empty, artifacts = Map.empty,
                   isProcessing = False, started = [] \<rparr>"

subsection \<open>createJob\<close>

record CreateParams =
  cp_filename :: string
  cp_zipBuffer :: buffer
  cp_keystoreBuffer :: "buffer option"
  cp_keystoreAlias :: "string option"
  cp_keystorePass :: "string option"
  cp_keystoreKeyPass :: "string option"
  cp_skipZipAlign :: bool

text \<open>
  \<^verbatim>\<open>keyPass: params.keystoreKeyPass || ''\<close>
\<close>

definition stage :: "CreateParams \<Rightarrow> Staged" where
  "stage params =
     \<lparr> inputZip = cp_zipBuffer params,
       keystoreJks = cp_keystoreBuffer params,
       keystoreJson =
         (if cp_keystoreBuffer params \<noteq> None
             \<and> truthy (cp_keystoreAlias params) \<and> truthy (cp_keystorePass params)
          then Some \<lparr> km_alias = cp_keystoreAlias params,
                      km_pass = cp_keystorePass params,
                      km_keyPass = Some (orEmpty (cp_keystoreKeyPass params)) \<rparr>
          else None) \<rparr>"

text \<open>
  The job record \<^verbatim>\<open>createJob\<close> builds. \<open>ident\<close> is the value of \<^verbatim>\<open>randomUUID()\<close>, \<open>now\<close>
  that of \<^verbatim>\<open>Date.now()\<close>, \<open>settings\<close> that of \<^verbatim>\<open>parseBuildSettings(params.zipBuffer)\<close>.
\<close>

definition newJob ::
  "CreateParams \<Rightarrow> string \<Rightarrow> int \<Rightarrow> BuildSettingsMeta option \<Rightarrow> BuildJob" where
  "newJob params ident now settings =
     \<lparr> jobId = ident,
       status = Queued,
       createdAt = now,
       startedAt = None,
       completedAt = None,
       error = None,
       input =
         \<lparr> in_filename = cp_filename params,
           in_size = length (cp_zipBuffer params),
           in_packageName = (case settings of None \<Rightarrow> None | Some m \<Rightarrow> bs_packageName m),
           in_versionName = (case settings of None \<Rightarrow> None | Some m \<Rightarrow> bs_versionName m),
           in_versionCode = (case settings of None \<Rightarrow> None | Some m \<Rightarrow> bs_versionCode m),
           hasKeystore =
             (cp_keystoreBuffer params \<noteq> None
              \<and> truthy (cp_keystoreAlias params) \<and> truthy (cp_keystorePass params)),
           in_skipZipAlign = cp_skipZipAlign params \<rparr>,
       artifact = None \<rparr>"

text \<open>
  \<^verbatim>\<open>createJob\<close>: the staging directory is written, the job is pushed at the end of the
  array. The call of \<^verbatim>\<open>processQueue\<close> at its end is not awaited: the worker pass it may
  start runs after \<^verbatim>\<open>createJob\<close> has returned the job.
\<close>

definition createJob ::
  "CreateParams \<Rightarrow> string \<Rightarrow> int \<Rightarrow> BuildSettingsMeta option \<Rightarrow> System \<Rightarrow> BuildJob \<times> System" where
  "createJob params ident now settings s =
     (let job = newJob params ident now settings
      in (job, s\<lparr> queue := (queue s)(ident \<mapsto> stage params), jobs := jobs s @ [job] \<rparr>))"

subsection \<open>updateJob\<close>

fun findIndex :: "('a \<Rightarrow> bool) \<Rightarrow> 'a list \<Rightarrow> nat option" where
  "findIndex P [] = None"
| "findIndex P (x # xs) =
     (if P x then Some 0 else (case findIndex P xs of None \<Rightarrow> None | Some i \<Rightarrow> Some (Suc i)))"

definition updateJob :: "BuildJob \<Rightarrow> BuildJob list \<Rightarrow> BuildJob list" where
  "updateJob job js =
     (case findIndex (\<lambda>item. jobId item = jobId job) js of
        None \<Rightarrow> js
      | Some index \<Rightarrow> js[index := job])"

subsection \<open>processQueue\<close>

text \<open>
  What the worker meets while it runs one job: the world of the build, the two readings of
  \<^verbatim>\<open>Date.now()\<close>, and the exception of storing the artifact, if that fails. The worker's
  surroundings give these for each job id.
\<close>

record JobEnv =
  world :: World
  startClock :: int
  endClock :: int
  artifactError :: "string option"

text \<open>
  \<^verbatim>\<open>jobs.filter(job => job.status === 'queued').sort((a, b) => a.createdAt - b.createdAt)[0]\<close>.
  \<^verbatim>\<open>Array.prototype.sort\<close> is stable, and so is \<open>sort_key\<close>.
\<close>

definition selectNext :: "BuildJob list \<Rightarrow> BuildJob option" where
  "selectNext js =
     (case sort_key createdAt (filter (\<lambda>job. status job = Queued) js) of
        [] \<Rightarrow> None
      | next # rest \<Rightarrow> Some next)"

text \<open>The queued jobs, in the order of the array.\<close>

definition queuedJobs :: "BuildJob list \<Rightarrow> BuildJob list" where
  "queuedJobs js = filter (\<lambda>job. status job = Queued) js"

text \<open>The first half of an iteration: the job is marked running.\<close>

definition runningOf :: "BuildJob \<Rightarrow> int \<Rightarrow> BuildJob" where
  "runningOf next now = next\<lparr> status := Running, startedAt := Some now, error := None \<rparr>"

definition startJob :: "(string \<Rightarrow> JobEnv) \<Rightarrow> BuildJob \<Rightarrow> System \<Rightarrow> System" where
  "startJob env next s =
     s\<lparr> jobs := updateJob (runningOf next (startClock (env (jobId next)))) (jobs s),
        started := started s @ [jobId next] \<rparr>"

text \<open>
  The options the worker hands to \<^verbatim>\<open>runAndroidBuild\<close>, from the staging directory.
\<close>

definition workerOptions :: "Staged \<Rightarrow> bool \<Rightarrow> BuildOptions" where
  "workerOptions dir skip =
     \<lparr> zipBuffer = inputZip dir,
       keystore =
         (case keystoreJks dir of
            None \<Rightarrow> None
          | Some keystoreBuffer \<Rightarrow>
              (case keystoreJson dir of
                 None \<Rightarrow> None
               | Some meta \<Rightarrow>
                   if truthy (km_alias meta) \<and> truthy (km_pass meta)
                   then Some \<lparr> ks_buffer = keystoreBuffer, ks_alias = km_alias meta,
                               ks_pass = km_pass meta, ks_keyPass = km_keyPass meta \<rparr>
                   else None)),
       skipZipAlign = skip \<rparr>"

text \<open>
  The body of the inner \<^verbatim>\<open>try\<close>, up to the artifact being written: the build result, or
  the exception that the \<^verbatim>\<open>catch\<close> receives.
\<close>

definition buildJob :: "JobEnv \<Rightarrow> BuildJob \<Rightarrow> System \<Rightarrow> string + BuildResult" where
  "buildJob e runningJob s =
     (case queue s (jobId runningJob) of
        None \<Rightarrow> Inl (''ENOENT: no such file or directory, open input.zip'')
      | Some dir \<Rightarrow>
          andThen (runAndroidBuild (world e)
                     (workerOptions dir (in_skipZipAlign (input runningJob)))) (\<lambda>result.
            case artifactError e of
              Some msg \<Rightarrow> Inl msg
            | None \<Rightarrow> Inr result))"

text \<open>
  The second half of an iteration. On success the artifact is stored, the job is marked
  completed and the staging directory is removed; in the \<^verbatim>\<open>catch\<close> the job is marked
  failed.
\<close>

definition finishJob :: "(string \<Rightarrow> JobEnv) \<Rightarrow> BuildJob \<Rightarrow> System \<Rightarrow> System" where
  "finishJob env runningJob s =
     (let e = env (jobId runningJob)
      in case buildJob e runningJob s of
           Inr result \<Rightarrow>
             s\<lparr> artifacts := (artifacts s)(jobId runningJob \<mapsto> (apkName result, apkBuffer result)),
                jobs := updateJob
                  (runningJob\<lparr> status := Completed, completedAt := Some (endClock e),
                     artifact := Some \<lparr> art_name = apkName result,
                                        art_size = length (apkBuffer result),
                                        art_sha256 = sha256 result \<rparr> \<rparr>) (jobs s),
                queue := (queue s)(jobId runningJob := None) \<rparr>
         | Inl message \<Rightarrow>
             s\<lparr> jobs := updateJob
                  (runningJob\<lparr> status := Failed, completedAt := Some (endClock e),
                     error := Some message \<rparr>) (jobs s) \<rparr>)"

text \<open>
  The loop \<^verbatim>\<open>while (true)\<close>. It ends when no queued job is left; a run that never gets
  there has no result.
\<close>

partial_function (option) drain :: "(string \<Rightarrow> JobEnv) \<Rightarrow> System \<Rightarrow> System option" where
  [code]: "drain env s =
     (case selectNext (jobs s) of
        None \<Rightarrow> Some s
      | Some next \<Rightarrow>
          drain env
            (finishJob env (runningOf next (startClock (env (jobId next)))) (startJob env next s)))"

definition processQueue :: "(string \<Rightarrow> JobEnv) \<Rightarrow> System \<Rightarrow> System option" where
  "processQueue env s =
     (if isProcessing s then Some s
      else map_option (\<lambda>s'. s'\<lparr> isProcessing := False \<rparr>) (drain env (s\<lparr> isProcessing := True \<rparr>)))"

subsection \<open>Interleaving of submissions and the worker\<close>

text \<open>
  Submissions arrive while a pass of the worker is under way, and nothing in the module
  keeps two of its asynchronous functions from holding \<^verbatim>\<open>jobs.json\<close> at once: \<^verbatim>\<open>createJob\<close>
  and \<^verbatim>\<open>updateJob\<close> each await \<^verbatim>\<open>readJobs\<close>, change the array they were given, and await
  \<^verbatim>\<open>writeJobs\<close>, and another function may run between the two awaits. So the read and the
  write are two moves, and the array held between them is part of the configuration.
  There is one server process, so one flag \<^verbatim>\<open>isProcessing\<close> and at most one worker; and
  a read of \<^verbatim>\<open>jobs.json\<close> returns the array last written.

  The worker is at one of these places: outside an iteration; holding the \<^verbatim>\<open>runningJob\<close> it
  has built, before \<^verbatim>\<open>updateJob(runningJob)\<close>; inside that \<^verbatim>\<open>updateJob\<close>, holding the array
  it is about to write; building; holding the \<^verbatim>\<open>completedJob\<close> or \<^verbatim>\<open>failedJob\<close> it has
  built (the flag says which), before the \<^verbatim>\<open>updateJob\<close> of it; inside that \<^verbatim>\<open>updateJob\<close>;
  and, after a successful build, before the removal of the staging directory.
\<close>

datatype Worker =
    Idle
  | Picked BuildJob
  | Marking BuildJob "BuildJob list"
  | Building BuildJob
  | Finished BuildJob bool
  | Closing BuildJob bool "BuildJob list"
  | Cleaning BuildJob

text \<open>
  The calls of \<^verbatim>\<open>createJob\<close> under way: \<open>staged\<close> holds the job of each call that has
  written its staging directory and built its job but not yet read \<^verbatim>\<open>jobs.json\<close>;
  \<open>pending\<close> holds the array, the job pushed, of each call that has read and not yet
  written.
\<close>

record Control =
  worker :: Worker
  staged :: "BuildJob list"
  pending :: "BuildJob list list"

definition idleControl :: Control where
  "idleControl = \<lparr> worker = Idle, staged = [], pending = [] \<rparr>"

type_synonym Config = "System \<times> Control"

text \<open>Every job record that a configuration holds, in the store or in flight.\<close>

fun workerRecords :: "Worker \<Rightarrow> BuildJob list" where
  "workerRecords Idle = []"
| "workerRecords (Picked rj) = [rj]"
| "workerRecords (Marking rj arr) = rj # arr"
| "workerRecords (Building rj) = [rj]"
| "workerRecords (Finished fin ok) = [fin]"
| "workerRecords (Closing fin ok arr) = fin # arr"
| "workerRecords (Cleaning fin) = [fin]"

definition recordList :: "Config \<Rightarrow> BuildJob list" where
  "recordList c =
     jobs (fst c) @ staged (snd c) @ concat (pending (snd c)) @ workerRecords (worker (snd c))"

text \<open>
  The first half of \<^verbatim>\<open>updateJob\<close>: the array read with the job put at its index, or nothing
  when \<^verbatim>\<open>findIndex\<close> gives -1 and \<^verbatim>\<open>updateJob\<close> returns without writing.
\<close>

definition updateRead :: "BuildJob \<Rightarrow> BuildJob list \<Rightarrow> BuildJob list option" where
  "updateRead job js =
     (case findIndex (\<lambda>item. jobId item = jobId job) js of
        None \<Rightarrow> None
      | Some index \<Rightarrow> Some (js[index := job]))"

text \<open>The records the worker builds at the end of the inner \<^verbatim>\<open>try\<close> and in its \<^verbatim>\<open>catch\<close>.\<close>

definition completedJobOf :: "BuildJob \<Rightarrow> JobEnv \<Rightarrow> BuildResult \<Rightarrow> BuildJob" where
  "completedJobOf runningJob e result =
     runningJob\<lparr> status := Completed, completedAt := Some (endClock e),
        artifact := Some \<lparr> art_name = apkName result,
                           art_size = length (apkBuffer result),
                           art_sha256 = sha256 result \<rparr> \<rparr>"

definition failedJobOf :: "BuildJob \<Rightarrow> JobEnv \<Rightarrow> string \<Rightarrow> BuildJob" where
  "failedJobOf runningJob e message =
     runningJob\<lparr> status := Failed, completedAt := Some (endClock e), error := Some message \<rparr>"

text \<open>Where the worker is once the last \<^verbatim>\<open>updateJob\<close> of an iteration has returned.\<close>

definition afterUpdate :: "BuildJob \<Rightarrow> bool \<Rightarrow> Worker" where
  "afterUpdate fin ok = (if ok then Cleaning fin else Idle)"

definition dropAt :: "nat \<Rightarrow> 'a list \<Rightarrow> 'a list" where
  "dropAt n xs = take n xs @ drop (Suc n) xs"

text \<open>
  The moves. \<open>StageJob\<close> is the part of a call of \<^verbatim>\<open>createJob\<close> before its \<^verbatim>\<open>readJobs\<close>: the
  staging directory is written and the job built, under an id (the value of
  \<^verbatim>\<open>randomUUID()\<close>) that no record of the configuration has. \<open>CreateRead n\<close> and
  \<open>CreateWrite n\<close> are the \<^verbatim>\<open>readJobs\<close> with the push, and the \<^verbatim>\<open>writeJobs\<close>, of the
  \<open>n\<close>-th call waiting for it. \<open>Enter\<close> and \<open>Leave\<close> take and release the flag
  \<^verbatim>\<open>isProcessing\<close>. \<open>Pick\<close> is the \<^verbatim>\<open>readJobs\<close> of the loop with the choice of \<^verbatim>\<open>next\<close>;
  \<open>MarkRead\<close> and \<open>MarkWrite\<close> are the two halves of \<^verbatim>\<open>updateJob(runningJob)\<close>; \<open>Build\<close> is
  the inner \<^verbatim>\<open>try\<close> up to the record of the outcome; \<open>FinRead\<close> and \<open>FinWrite\<close> are the two
  halves of the \<^verbatim>\<open>updateJob\<close> of that record; \<open>Clean\<close> removes the staging directory.
\<close>

datatype Move =
    StageJob CreateParams string int "BuildSettingsMeta option"
  | CreateRead nat
  | CreateWrite nat
  | Enter
  | Pick
  | MarkRead
  | MarkWrite
  | Build
  | FinRead
  | FinWrite
  | Clean
  | Leave

fun move :: "(string \<Rightarrow> JobEnv) \<Rightarrow> Move \<Rightarrow> Config \<Rightarrow> Config option" where
  "move env (StageJob params ident now settings) (s, k) =
     (if ident \<in> set (map jobId (recordList (s, k))) then None
      else Some (s\<lparr> queue := (queue s)(ident \<mapsto> stage params) \<rparr>,
                 k\<lparr> staged := staged k @ [newJob params ident now settings] \<rparr>))"
| "move env (CreateRead n) (s, k) =
     (if n < length (staged k)
      then Some (s, k\<lparr> staged := dropAt n (staged k),
                       pending := pending k @ [jobs s @ [staged k ! n]] \<rparr>)
      else None)"
| "move env (CreateWrite n) (s, k) =
     (if n < length (pending k)
      then Some (s\<lparr> jobs := pending k ! n \<rparr>, k\<lparr> pending := dropAt n (pending k) \<rparr>)
      else None)"
| "move env Enter (s, k) =
     (if isProcessing s then None else Some (s\<lparr> isProcessing := True \<rparr>, k))"
| "move env Pick (s, k) =
     (if isProcessing s \<and> worker k = Idle
      then (case selectNext (jobs s) of
              None \<Rightarrow> None
            | Some nxt \<Rightarrow>
                Some (s\<lparr> started := started s @ [jobId nxt] \<rparr>,
                      k\<lparr> worker := Picked (runningOf nxt (startClock (env (jobId nxt)))) \<rparr>))
      else None)"
| "move env MarkRead (s, k) =
     (case worker k of
        Picked rj \<Rightarrow>
          Some (s, k\<lparr> worker := (case updateRead rj (jobs s) of
                                   None \<Rightarrow> Building rj
                                 | Some arr \<Rightarrow> Marking rj arr) \<rparr>)
      | _ \<Rightarrow> None)"
| "move env MarkWrite (s, k) =
     (case worker k of
        Marking rj arr \<Rightarrow> Some (s\<lparr> jobs := arr \<rparr>, k\<lparr> worker := Building rj \<rparr>)
      | _ \<Rightarrow> None)"
| "move env Build (s, k) =
     (case worker k of
        Building rj \<Rightarrow>
          (case buildJob (env (jobId rj)) rj s of
             Inr result \<Rightarrow>
               Some (s\<lparr> artifacts := (artifacts s)(jobId rj \<mapsto> (apkName result, apkBuffer result)) \<rparr>,
                     k\<lparr> worker := Finished (completedJobOf rj (env (jobId rj)) result) True \<rparr>)
           | Inl message \<Rightarrow>
               Some (s, k\<lparr> worker := Finished (failedJobOf rj (env (jobId rj)) message) False \<rparr>))
      | _ \<Rightarrow> None)"
| "move env FinRead (s, k) =
     (case worker k of
        Finished fin ok \<Rightarrow>
          Some (s, k\<lparr> worker := (case updateRead fin (jobs s) of
                                   None \<Rightarrow> afterUpdate fin ok
                                 | Some arr \<Rightarrow> Closing fin ok arr) \<rparr>)
      | _ \<Rightarrow> None)"
| "move env FinWrite (s, k) =
     (case worker k of
        Closing fin ok arr \<Rightarrow> Some (s\<lparr> jobs := arr \<rparr>, k\<lparr> worker := afterUpdate fin ok \<rparr>)
      | _ \<Rightarrow> None)"
| "move env Clean (s, k) =
     (case worker k of
        Cleaning fin \<Rightarrow>
          Some (s\<lparr> queue := (queue s)(jobId fin := None) \<rparr>, k\<lparr> worker := Idle \<rparr>)
      | _ \<Rightarrow> None)"
| "move env Leave (s, k) =
     (if isProcessing s \<and> worker k = Idle
      then (case selectNext (jobs s) of
              None \<Rightarrow> Some (s\<lparr> isProcessing := False \<rparr>, k)
            | Some nxt \<Rightarrow> None)
      else None)"

definition step :: "(string \<Rightarrow> JobEnv) \<Rightarrow> Config \<Rightarrow> Config \<Rightarrow> bool" where
  "step env c c' = (\<exists>m. move env m c = Some c')"

definition reachable :: "(string \<Rightarrow> JobEnv) \<Rightarrow> Config \<Rightarrow> bool" where
  "reachable env c = (step env)\<^sup>*\<^sup>* (emptySystem, idleControl) c"

text \<open>A schedule: moves made one after the other, as long as each is possible.\<close>

fun run :: "(string \<Rightarrow> JobEnv) \<Rightarrow> Move list \<Rightarrow> Config \<Rightarrow> Config option" where
  "run env [] c = Some c"
| "run env (m # ms) c = (case move env m c of None \<Rightarrow> None | Some c' \<Rightarrow> run env ms c')"

text \<open>The status of the job with a given id, if the store has one (\<^verbatim>\<open>getJob\<close>).\<close>

definition getJob :: "System \<Rightarrow> string \<Rightarrow> BuildJob option" where
  "getJob s ident = find (\<lambda>job. jobId job = ident) (jobs s)"

definition statusOf :: "System \<Rightarrow> string \<Rightarrow> BuildStatus option" where
  "statusOf s ident = map_option status (getJob s ident)"

text \<open>
  The state machine of a job, as the specification draws it: a job appears as queued, a
  queued job may start running, a running job may end completed or failed, and nothing
  else changes a status. \<open>None\<close> is a job that does not exist yet.
\<close>

definition allowedMove :: "BuildStatus option \<Rightarrow> BuildStatus option \<Rightarrow> bool" where
  "allowedMove a b =
     (a = b
      \<or> (a = None \<and> b = Some Queued)
      \<or> (a = Some Queued \<and> b = Some Running)
      \<or> (a = Some Running \<and> b = Some Completed)
      \<or> (a = Some Running \<and> b = Some Failed))"

text \<open>The fields of a job agree with its status.\<close>

definition consistent :: "BuildJob \<Rightarrow> bool" where
  "consistent job =
     ((artifact job \<noteq> None) = (status job = Completed)
      \<and> (error job \<noteq> None) = (status job = Failed))"

text \<open>
  What holds of every configuration of the interleaving: every record it holds is
  consistent, and the \<^verbatim>\<open>runningJob\<close> in the worker's hands is running.
\<close>

fun holdsRunning :: "Worker \<Rightarrow> bool" where
  "holdsRunning (Picked rj) = (status rj = Running)"
| "holdsRunning (Marking rj arr) = (status rj = Running)"
| "holdsRunning (Building rj) = (status rj = Running)"
| "holdsRunning w = True"

definition invariant :: "Config \<Rightarrow> bool" where
  "invariant c = (list_all consistent (recordList c) \<and> holdsRunning (worker (snd c)))"



subsection \<open>Schedules without overlap\<close>

text \<open>
  The schedules in which every read-modify-write of \<^verbatim>\<open>jobs.json\<close> is over before another
  begins. Then a call of \<^verbatim>\<open>createJob\<close> is one move and an iteration of the worker is two,
  the marking of the job and the build with the record of its outcome, and between the two
  the worker holds its \<^verbatim>\<open>runningJob\<close>.
\<close>

inductive atomicStep ::
  "(string \<Rightarrow> JobEnv) \<Rightarrow> System \<times> BuildJob option \<Rightarrow> System \<times> BuildJob option \<Rightarrow> bool"
  for env :: "string \<Rightarrow> JobEnv" where
  create: "ident \<notin> jobId ` set (jobs s) \<Longrightarrow>
           atomicStep env (s, w) (snd (createJob params ident now settings s), w)"
| enter: "\<not> isProcessing s \<Longrightarrow> atomicStep env (s, None) (s\<lparr> isProcessing := True \<rparr>, None)"
| start: "isProcessing s \<Longrightarrow> selectNext (jobs s) = Some next \<Longrightarrow>
          atomicStep env (s, None)
            (startJob env next s, Some (runningOf next (startClock (env (jobId next)))))"
| finish: "atomicStep env (s, Some runningJob) (finishJob env runningJob s, None)"
| leave: "isProcessing s \<Longrightarrow> selectNext (jobs s) = None \<Longrightarrow>
          atomicStep env (s, None) (s\<lparr> isProcessing := False \<rparr>, None)"

definition atomicReachable :: "(string \<Rightarrow> JobEnv) \<Rightarrow> System \<times> BuildJob option \<Rightarrow> bool" where
  "atomicReachable env c = (atomicStep env)\<^sup>*\<^sup>* (emptySystem, None) c"

text \<open>
  What holds of every configuration of such a schedule: ids are unique, every job is
  consistent, and the job the worker holds is in the store, running.
\<close>

definition atomicInvariant :: "System \<times> BuildJob option \<Rightarrow> bool" where
  "atomicInvariant c =
     (distinct (map jobId (jobs (fst c)))
      \<and> list_all consistent (jobs (fst c))
      \<and> (\<forall>runningJob. snd c = Some runningJob \<longrightarrow>
            runningJob \<in> set (jobs (fst c)) \<and> status runningJob = Running))"

text \<open>
  The configuration of the interleaving that a configuration without overlap stands for:
  no call of \<^verbatim>\<open>createJob\<close> is under way, and the worker that holds a job is building it.
\<close>

definition ctl :: "BuildJob option \<Rightarrow> Control" where
  "ctl w = \<lparr> worker = (case w of None \<Rightarrow> Idle | Some runningJob \<Rightarrow> Building runningJob),
            staged = [], pending = [] \<rparr>"



subsection \<open>Example worlds, submissions and stores\<close>

text \<open>
  A world in which the signer is found and every command succeeds: the bundle is an
  already compiled binary, the signer leaves one signed file, and the verification report
  carries a hash.
\<close>

definition exWorld :: World where
  "exWorld =
     \<lparr> getenv = (\<lambda>v. if v = ''APKSIGNER_JAR'' then Some ''/opt/signer.jar'' else None),
       cwd = ''/srv/app'',
       tempDir = ''/tmp/df-1'',
       existsSync = (\<lambda>f. f = ''/opt/signer.jar''),
       ioError = (\<lambda>st. None),
       isBundleZip = (\<lambda>b. False),
       exec = (\<lambda>c. if c = ''ls /tmp/df-1/out'' then Inr (''app-aligned-debugSigned.apk'' @ [CHR 0x0A])
                   else if c = ''java -jar /opt/signer.jar -y -a /tmp/df-1/out/app-aligned-debugSigned.apk --verbose''
                   then Inr ''Verified. SHA256: ab12 cd34 (ok)''
                   else Inr []),
       readdir = (\<lambda>d. []),
       readFile = (\<lambda>f. Inr [80, 75, 3, 4, 20]) \<rparr>"

text \<open>The same world, with a verification run that fails.\<close>

definition exWorldVerifyFails :: World where
  "exWorldVerifyFails =
     exWorld\<lparr> exec := (\<lambda>c. if c = ''ls /tmp/df-1/out'' then Inr (''app-aligned-debugSigned.apk'' @ [CHR 0x0A])
                   else if c = ''java -jar /opt/signer.jar -y -a /tmp/df-1/out/app-aligned-debugSigned.apk --verbose''
                   then Inl ''Command failed: java -jar /opt/signer.jar -y''
                   else Inr []) \<rparr>"

text \<open>The same world, with a verification report that carries no hash.\<close>

definition exWorldNoHash :: World where
  "exWorldNoHash =
     exWorld\<lparr> exec := (\<lambda>c. if c = ''ls /tmp/df-1/out'' then Inr (''app-aligned-debugSigned.apk'' @ [CHR 0x0A])
                   else if c = ''java -jar /opt/signer.jar -y -a /tmp/df-1/out/app-aligned-debugSigned.apk --verbose''
                   then Inr ''Verified. SHA-256 digest omitted''
                   else Inr []) \<rparr>"

text \<open>
  A world in which the bundle is a source bundle, the template is there, and neither
  \<^verbatim>\<open>ANDROID_HOME\<close> nor \<^verbatim>\<open>ANDROID_SDK_ROOT\<close> is set.
\<close>

definition exWorldNoSdk :: World where
  "exWorldNoSdk =
     exWorld\<lparr> isBundleZip := (\<lambda>b. True),
              existsSync := (\<lambda>f. f = ''/opt/signer.jar'' \<or> f = ''/srv/app/android-template'') \<rparr>"

text \<open>What the pipeline holds in the example world once the signed binary is read.\<close>

definition exSigned :: Signed where
  "exSigned = \<lparr> sg_jarPath = ''/opt/signer.jar'', sg_name = ''app-aligned-debugSigned.apk'',
                sg_path = ''/tmp/df-1/out/app-aligned-debugSigned.apk'',
                sg_buffer = [80, 75, 3, 4, 20] \<rparr>"

definition exOptions :: BuildOptions where
  "exOptions = \<lparr> zipBuffer = [80, 75, 3, 4], keystore = None, skipZipAlign = False \<rparr>"

text \<open>A submission with keystore bytes and an alias, but no store password.\<close>

definition exCreate :: CreateParams where
  "exCreate =
     \<lparr> cp_filename = ''app.zip'', cp_zipBuffer = [80, 75, 3, 4],
       cp_keystoreBuffer = Some [1, 2, 3], cp_keystoreAlias = Some ''release'',
       cp_keystorePass = None, cp_keystoreKeyPass = Some ''secret'',
       cp_skipZipAlign = False \<rparr>"

text \<open>
  Three submissions: the second has the timestamp of the first, the third an earlier one.
\<close>

definition exSystem1 :: System where
  "exSystem1 = snd (createJob exCreate ''job-1'' 1000 None emptySystem)"

definition exSystem2 :: System where
  "exSystem2 = snd (createJob exCreate ''job-2'' 1000 None exSystem1)"

definition exSystem3 :: System where
  "exSystem3 = snd (createJob exCreate ''job-3'' 900 None exSystem2)"

text \<open>The worker's surroundings: the build of the second job fails, the others succeed.\<close>

definition exEnv :: "string \<Rightarrow> JobEnv" where
  "exEnv ident =
     \<lparr> world = (if ident = ''job-2'' then exWorldNoSdk else exWorld),
       startClock = 2000, endClock = 3000, artifactError = None \<rparr>"

text \<open>
  The first iteration of the worker on the three example submissions, in its two halves.
\<close>

definition exRunning :: BuildJob where
  "exRunning = runningOf (the (selectNext (jobs exSystem3))) 2000"

definition exStarted :: System where
  "exStarted = startJob exEnv (the (selectNext (jobs exSystem3))) (exSystem3\<lparr> isProcessing := True \<rparr>)"

definition exFinished :: System where
  "exFinished = finishJob exEnv exRunning exStarted"

text \<open>
  A schedule in which a submission overlaps the worker. The first job is submitted, and the
  worker marks it running and builds it. A second submission stages its files. Then the
  \<^verbatim>\<open>updateJob\<close> of the worker reads \<^verbatim>\<open>jobs.json\<close>, the second \<^verbatim>\<open>createJob\<close> reads it, and the
  worker writes the first job back completed. The write of the second \<^verbatim>\<open>createJob\<close> is
  still to come.
\<close>

definition exRace :: "Move list" where
  "exRace =
     [StageJob exCreate ''job-1'' 1000 None, CreateRead 0, CreateWrite 0,
      Enter, Pick, MarkRead, MarkWrite, Build,
      StageJob exCreate ''job-2'' 1500 None,
      FinRead, CreateRead 0, FinWrite]"



text \<open>The configuration of the overlapping schedule once the second submission has written.\<close>

definition exRaced :: Config where
  "exRaced = the (run exEnv (exRace @ [CreateWrite 0]) (emptySystem, idleControl))"

section \<open>Properties of the quota ledger\<close>

subsection \<open>Plain keys in an unextended realm\<close>

lemma tableGet_plain:
  "plainKey i \<Longrightarrow> unextended g \<Longrightarrow>
   tableGet g t i = (case t i of Some b \<Rightarrow> JBucket b | None \<Rightarrow> JUndefined)"
  by (simp add: tableGet_def plainKey_def unextended_def split: option.splits)

lemma numGet_plain:
  "plainKey i \<Longrightarrow> unextended g \<Longrightarrow> numGet g (tableGet g t i) k = stored t i k"
  by (simp add: tableGet_plain numGet_def stored_def ownBucket_def orZero_def unextended_def
      split: option.splits)

lemma incrementAt_plain:
  "plainKey i \<Longrightarrow> unextended g \<Longrightarrow>
   incrementAt g t i k = Inr (t(i \<mapsto> (ownBucket t i)(k \<mapsto> stored t i k + 1)), g)"
  by (cases "t i")
     (simp_all add: incrementAt_def tableGet_plain falsy_def numGet_def stored_def ownBucket_def
        orZero_def unextended_def Let_def split: option.splits)

lemma stored_upd:
  "stored (t(i \<mapsto> (ownBucket t i)(k \<mapsto> v))) i' k' = (if i' = i \<and> k' = k then v else stored t i' k')"
  by (simp add: stored_def ownBucket_def orZero_def split: option.splits)

lemma getScopeCount_plain:
  "plainKey i \<Longrightarrow> unextended g \<Longrightarrow>
   getScopeCount g usage sc i k = (if i = [] then 0 else stored (table sc usage) i k)"
  by (simp add: getScopeCount_def numGet_plain)

lemma getIpHourlyCount_plain:
  "plainKey a \<Longrightarrow> unextended g \<Longrightarrow>
   getIpHourlyCount g usage a k = (if a = [] then 0 else stored (ipHourly usage) a k)"
  by (simp add: getIpHourlyCount_def numGet_plain)

lemma incrementScope_plain:
  "plainKey i \<Longrightarrow> unextended g \<Longrightarrow>
   incrementScope g usage sc i k =
     Inr (case sc of
            User \<Rightarrow> usage\<lparr>user := raise (user usage) i k\<rparr>
          | Device \<Rightarrow> usage\<lparr>device := raise (device usage) i k\<rparr>, g)"
  by (cases sc) (simp_all add: incrementScope_def incrementAt_plain table_def raise_def)

lemma incrementIpHourly_plain:
  "plainKey a \<Longrightarrow> unextended g \<Longrightarrow>
   incrementIpHourly g usage a k = Inr (usage\<lparr>ipHourly := raise (ipHourly usage) a k\<rparr>, g)"
  by (simp add: incrementIpHourly_def incrementAt_plain raise_def)

subsection \<open>What an increment leaves alone\<close>

lemma incrementScope_ipHourly:
  "incrementScope g usage sc i k = Inr (u, g') \<Longrightarrow> ipHourly u = ipHourly usage"
  by (cases sc) (auto simp: incrementScope_def split: if_splits sum.splits)

lemma incrementIpHourly_empty: "incrementIpHourly g usage [] k = Inr (usage, g)"
  by (simp add: incrementIpHourly_def)

subsection \<open>The three branches of consumeQuota\<close>

lemma consumeQuota_ip:
  "ipReached g usage ck params \<Longrightarrow>
   consumeQuota g usage ck sk params =
     (Inr \<lparr> allowed = False, reason = Some IpRateLimit,
            snapshot = getQuotaSnapshot g usage sk params \<rparr>, usage, g)"
  by (simp add: consumeQuota_def ipReached_def Let_def)

lemma consumeQuota_weekly:
  "\<not> ipReached g usage ck params \<Longrightarrow> weeklyReached g usage ck params \<Longrightarrow>
   consumeQuota g usage ck sk params =
     (Inr \<lparr> allowed = False, reason = Some WeeklyLimit,
            snapshot = getQuotaSnapshot g usage sk params \<rparr>, usage, g)"
  by (simp add: consumeQuota_def ipReached_def weeklyReached_def Let_def)

lemma consumeQuota_increments:
  "\<not> ipReached g usage ck params \<Longrightarrow> \<not> weeklyReached g usage ck params \<Longrightarrow>
   consumeQuota g usage ck sk params =
     (case incrementScope g usage User (orEmpty (userId params)) (getWeekKey (weekNow ck)) of
        Inl e \<Rightarrow> (Inl e, usage, g)
      | Inr (u1, g1) \<Rightarrow>
          (case incrementScope g1 u1 Device (orEmpty (deviceId params))
                  (getWeekKey (weekNow ck)) of
             Inl e \<Rightarrow> (Inl e, usage, g1)
           | Inr (u2, g2) \<Rightarrow>
               (case incrementIpHourly g2 u2 (orEmpty (ip params)) (getHourKey (hourNow ck)) of
                  Inl e \<Rightarrow> (Inl e, usage, g2)
                | Inr (u3, g3) \<Rightarrow>
                    (Inr \<lparr> allowed = True, reason = None,
                           snapshot = getQuotaSnapshot g3 u3 sk params \<rparr>, u3, g3))))"
  by (simp add: consumeQuota_def ipReached_def weeklyReached_def Let_def)

text \<open>The store an allowed call of a caller with plain keys writes.\<close>

lemma consumeQuota_allow_plain:
  assumes "\<not> ipReached g usage ck params" and "\<not> weeklyReached g usage ck params"
    and "unextended g" and "plainKey (orEmpty (userId params))"
    and "plainKey (orEmpty (deviceId params))" and "plainKey (orEmpty (ip params))"
  shows "consumeQuota g usage ck sk params =
     (Inr \<lparr> allowed = True, reason = None,
            snapshot = getQuotaSnapshot g (written usage ck params) sk params \<rparr>,
      written usage ck params, g)"
  using assms
  by (simp add: consumeQuota_increments incrementScope_plain incrementIpHourly_plain
      written_def Let_def)

subsection \<open>Weeks start on Monday\<close>

lemma monday_days:
  fixes d q :: int
  shows "7 * q + 4 \<le> d \<Longrightarrow> d < 7 * q + 11 \<Longrightarrow> d - ((d + 4) mod 7 + 6) mod 7 = 7 * q + 4"
  by presburger

lemma mondayOf_week:
  assumes m: "isMondayStart m" and t: "inWeekOf m t"
  shows "mondayOf t = m"
proof -
  define D :: int where "D = 86400000"
  define q where "q = m div (7 * D)"
  define d where "d = t div D"
  have Dpos: "0 < D" by (simp add: D_def)
  have "m = 7 * D * q + m mod (7 * D)" unfolding q_def by simp
  also have "m mod (7 * D) = 4 * D"
    using m by (simp add: isMondayStart_def msPerDay_def D_def)
  finally have mq: "m = D * (7 * q + 4)" by (simp add: algebra_simps)
  have le: "D * (7 * q + 4) \<le> t" and lt: "t < D * (7 * q + 11)"
    using t mq by (simp_all add: inWeekOf_def msPerDay_def D_def algebra_simps)
  have "(D * (7 * q + 4)) div D \<le> t div D" using le by (rule zdiv_mono1) (rule Dpos)
  then have lo: "7 * q + 4 \<le> d" using Dpos by (simp add: d_def)
  have "D * d + t mod D = t" unfolding d_def by simp
  moreover have "0 \<le> t mod D" using Dpos by simp
  ultimately have "D * d < D * (7 * q + 11)" using lt by linarith
  then have hi: "d < 7 * q + 11" using Dpos by (simp add: mult_less_cancel_left_pos)
  have dd: "(d * D) div D = d" using Dpos by simp
  have "mondayOf t = d * D - (((d * D) div D + 4) mod 7 + 6) mod 7 * D"
    by (simp add: mondayOf_def utcDayStart_def getUTCDay_def msPerDay_def Let_def d_def D_def)
  also have "\<dots> = (d - ((d + 4) mod 7 + 6) mod 7) * D"
    by (simp only: dd) (simp add: algebra_simps)
  also have "\<dots> = (7 * q + 4) * D" using monday_days [OF lo hi] by simp
  finally show ?thesis using mq by (simp add: mult.commute)
qed

lemma getWeekKey_week:
  "isMondayStart m \<Longrightarrow> inWeekOf m t \<Longrightarrow> getWeekKey t = take 10 (toISOString m)"
  by (simp add: getWeekKey_def mondayOf_week)

subsection \<open>Time keys\<close>

text \<open>
  A week key and an hour key begin with a digit or a sign, so neither is \<^verbatim>\<open>__proto__\<close> or
  the name of a method of \<^verbatim>\<open>Object.prototype\<close>.
\<close>

lemma digit_in: "digit n \<in> set ''0123456789''"
proof -
  have "nat (n mod 10) < 10" by simp
  then have "''0123456789'' ! nat (n mod 10) \<in> set ''0123456789''"
    by (intro nth_mem) simp
  then show ?thesis by (simp add: digit_def)
qed

lemma pad_hd: "pad (Suc k) n \<noteq> [] \<and> hd (pad (Suc k) n) \<in> set ''0123456789''"
proof (induction k arbitrary: n)
  case 0
  show ?case using digit_in [of n] by simp
next
  case (Suc k)
  have "pad (Suc (Suc k)) n = pad (Suc k) (n div 10) @ [digit n]" by simp
  then show ?case using Suc [of "n div 10"] by (simp del: pad.simps)
qed

lemma isoYear_hd: "isoYear y \<noteq> [] \<and> hd (isoYear y) \<in> set ''0123456789+-''"
  using pad_hd [of 3 y] by (auto simp: isoYear_def numeral_eq_Suc simp del: pad.simps)

lemma toISOString_hd: "hd (take (Suc n) (toISOString t)) \<in> set ''0123456789+-''"
proof -
  obtain y m d where c: "civil (t div msPerDay) = (y, m, d)" by (cases "civil (t div msPerDay)")
  obtain x xs where i: "isoYear y = x # xs" "x \<in> set ''0123456789+-''"
    using isoYear_hd [of y] by (cases "isoYear y") auto
  show ?thesis using i by (simp add: toISOString_def c Let_def)
qed

lemma plainKey_hd: "hd k \<in> set ''0123456789+-'' \<Longrightarrow> plainKey k"
  by (auto simp: plainKey_def builtinNames_def)

lemma time_keys_plain: "plainKey (getWeekKey t)" "plainKey (getHourKey t)"
  using toISOString_hd [of 9] toISOString_hd [of 12]
  by (simp_all add: getWeekKey_def getHourKey_def plainKey_hd numeral_eq_Suc)

subsection \<open>A run of submissions\<close>

lemma stored_raise:
  "stored (raise t i k) i' k' = stored t i' k' + (if i' = i \<and> i \<noteq> [] \<and> k' = k then 1 else 0)"
  by (simp add: raise_def stored_def ownBucket_def orZero_def split: option.splits)

lemma table_simps: "table User u = user u" "table Device u = device u"
  by (simp_all add: table_def)

lemma after_k_empty: "unextended g \<Longrightarrow> plainKey (orEmpty (userId p)) \<Longrightarrow>
    plainKey (orEmpty (deviceId p)) \<Longrightarrow> plainKey (orEmpty (ip p)) \<Longrightarrow> after_k g emptyUsage p wk 0"
  by (simp add: after_k_def getScopeCount_plain getIpHourlyCount_plain stored_def ownBucket_def
      orZero_def emptyUsage_def table_def split: scope.splits)

lemma free_allowed_step:
  assumes free: "qplan p = Free"
    and ident: "orEmpty (userId p) \<noteq> [] \<or> orEmpty (deviceId p) \<noteq> []"
    and g: "unextended g"
    and pk: "plainKey (orEmpty (userId p))" "plainKey (orEmpty (deviceId p))"
      "plainKey (orEmpty (ip p))"
    and inv: "after_k g u p wk k"
    and wk: "getWeekKey (weekNow ck) = wk"
    and k: "0 \<le> k" "k < 3"
  shows "consumeQuota g u ck sk p
       = (Inr \<lparr> allowed = True, reason = None,
                snapshot = getQuotaSnapshot g (written u ck p) sk p \<rparr>, written u ck p, g)
       \<and> after_k g (written u ck p) p wk (k + 1)"
proof -
  have nip: "\<not> ipReached g u ck p"
  proof -
    have "getIpHourlyCount g u (orEmpty (ip p)) (getHourKey (hourNow ck)) \<le> k"
      using inv by (simp add: after_k_def)
    then show ?thesis using k by (simp add: ipReached_def IP_HOURLY_LIMIT_def)
  qed
  have nwk: "\<not> weeklyReached g u ck p"
    using inv k free ident
    by (auto simp: weeklyReached_def getLimitForPlan_def after_k_def wk)
  have ip': "getIpHourlyCount g u (orEmpty (ip p)) h \<le> k" for h
    using inv by (simp add: after_k_def)
  note eq = consumeQuota_allow_plain [OF nip nwk g pk, of sk]
  have usr: "getScopeCount g (written u ck p) User (orEmpty (userId p)) wk
      = (if orEmpty (userId p) = [] then 0 else k + 1)"
    using inv
    by (auto simp: after_k_def getScopeCount_plain [OF pk(1) g] written_def table_simps
        stored_raise wk)
  have dev: "getScopeCount g (written u ck p) Device (orEmpty (deviceId p)) wk
      = (if orEmpty (deviceId p) = [] then 0 else k + 1)"
    using inv
    by (auto simp: after_k_def getScopeCount_plain [OF pk(2) g] written_def table_simps
        stored_raise wk)
  have "getIpHourlyCount g (written u ck p) (orEmpty (ip p)) h \<le> k + 1" for h
    using ip' [of h]
    by (auto simp: getIpHourlyCount_plain [OF pk(3) g] written_def stored_raise)
  then show ?thesis using eq usr dev by (simp add: after_k_def)
qed

lemma free_rejected_step:
  assumes free: "qplan p = Free"
    and ident: "orEmpty (userId p) \<noteq> [] \<or> orEmpty (deviceId p) \<noteq> []"
    and inv: "after_k g u p wk 3"
    and wk: "getWeekKey (weekNow ck) = wk"
  shows "consumeQuota g u ck sk p
       = (Inr \<lparr> allowed = False, reason = Some WeeklyLimit,
                snapshot = getQuotaSnapshot g u sk p \<rparr>, u, g)"
proof -
  have nip: "\<not> ipReached g u ck p"
  proof -
    have "getIpHourlyCount g u (orEmpty (ip p)) (getHourKey (hourNow ck)) \<le> 3"
      using inv by (simp add: after_k_def)
    then show ?thesis by (simp add: ipReached_def IP_HOURLY_LIMIT_def)
  qed
  have wkr: "weeklyReached g u ck p"
    using inv free ident
    by (auto simp: weeklyReached_def getLimitForPlan_def after_k_def wk)
  show ?thesis by (simp add: consumeQuota_weekly [OF nip wkr])
qed

text \<open>
  With plain keys, in a process whose \<^verbatim>\<open>Object.prototype\<close> is unextended, the weekly limit
  of the free plan works as intended: from the empty store, of four submissions in one week
  that starts on a Monday the first three are allowed and the fourth is rejected.
\<close>

lemma free_plan_plain_identity:
  assumes m: "isMondayStart m"
    and w: "\<forall>c \<in> set [c1, c2, c3, c4]. inWeekOf m (weekNow (fst c))"
    and free: "qplan p = Free"
    and ident: "orEmpty (userId p) \<noteq> [] \<or> orEmpty (deviceId p) \<noteq> []"
    and g: "unextended g"
    and pk: "plainKey (orEmpty (userId p))" "plainKey (orEmpty (deviceId p))"
      "plainKey (orEmpty (ip p))"
  shows "map isAllowed (submissions g emptyUsage [c1, c2, c3, c4] p) = [True, True, True, False]
       \<and> map reasonOf (submissions g emptyUsage [c1, c2, c3, c4] p)
            = [None, None, None, Some WeeklyLimit]"
proof -
  define wk where "wk = take 10 (toISOString m)"
  have wks: "getWeekKey (weekNow (fst c1)) = wk" "getWeekKey (weekNow (fst c2)) = wk"
    "getWeekKey (weekNow (fst c3)) = wk" "getWeekKey (weekNow (fst c4)) = wk"
    using m w by (simp_all add: getWeekKey_week wk_def)
  define u1 where "u1 = written emptyUsage (fst c1) p"
  define u2 where "u2 = written u1 (fst c2) p"
  define u3 where "u3 = written u2 (fst c3) p"
  note step = free_allowed_step [OF free ident g pk]
  have s1: "consumeQuota g emptyUsage (fst c1) (snd c1) p
       = (Inr \<lparr> allowed = True, reason = None,
                snapshot = getQuotaSnapshot g u1 (snd c1) p \<rparr>, u1, g)
       \<and> after_k g u1 p wk 1"
    using step [OF after_k_empty [OF g pk] wks(1), of "snd c1"] by (simp add: u1_def)
  have s2: "consumeQuota g u1 (fst c2) (snd c2) p
       = (Inr \<lparr> allowed = True, reason = None,
                snapshot = getQuotaSnapshot g u2 (snd c2) p \<rparr>, u2, g)
       \<and> after_k g u2 p wk 2"
    using step [OF _ wks(2), of u1 1 "snd c2"] s1 by (simp add: u2_def)
  have s3: "consumeQuota g u2 (fst c3) (snd c3) p
       = (Inr \<lparr> allowed = True, reason = None,
                snapshot = getQuotaSnapshot g u3 (snd c3) p \<rparr>, u3, g)
       \<and> after_k g u3 p wk 3"
    using step [OF _ wks(3), of u2 2 "snd c3"] s2 by (simp add: u3_def)
  have s4: "consumeQuota g u3 (fst c4) (snd c4) p
       = (Inr \<lparr> allowed = False, reason = Some WeeklyLimit,
                snapshot = getQuotaSnapshot g u3 (snd c4) p \<rparr>, u3, g)"
    using free_rejected_step [OF free ident _ wks(4), of g u3 "snd c4"] s3 by simp
  show ?thesis using s1 s2 s3 s4 by (simp add: isAllowed_def reasonOf_def)
qed

lemma studio_no_weekly:
  "qplan p = Studio \<Longrightarrow> reasonOf (fst (consumeQuota g u ck sk p)) \<noteq> Some WeeklyLimit"
proof (cases "ipReached g u ck p")
  case True
  then show ?thesis by (simp add: consumeQuota_ip reasonOf_def)
next
  case False
  assume "qplan p = Studio"
  then have "\<not> weeklyReached g u ck p" by (simp add: weeklyReached_def getLimitForPlan_def)
  then show ?thesis
    by (simp add: consumeQuota_increments [OF False] reasonOf_def split: sum.splits prod.splits)
qed

lemma studio_submissions:
  "qplan p = Studio \<Longrightarrow> r \<in> set (submissions g u cs p) \<Longrightarrow> reasonOf r \<noteq> Some WeeklyLimit"
  by (induction cs arbitrary: g u) (auto simp: studio_no_weekly)

subsection \<open>The order of the checks\<close>

text \<open>
  Claim C1, as amended. For every call of \<^verbatim>\<open>consumeQuota\<close>: if the hourly counter of the
  caller's address for the current UTC hour has reached 30, the call is rejected with reason
  \<^verbatim>\<open>ip-rate-limit\<close>; otherwise, if the plan has a finite weekly limit and the larger of the
  user and device counts of the current week has reached it, the call is rejected with
  reason \<^verbatim>\<open>weekly-limit\<close>; a rejected call leaves the store and the process as they were.
  Otherwise, when no identity value names a property of \<^verbatim>\<open>Object.prototype\<close> and that
  object has not been extended, the call is allowed and the store written back is the one
  read with this change, table by table: under each identity value that is not the empty
  string, the bucket of the current week (user, device) or hour (address) holds one more
  than the count read; the table of a scope whose identity value is the empty string is the
  table read, so no counter is kept under the empty string.
\<close>

theorem consumeQuota_checks_in_order:
  "let wk = getWeekKey (weekNow ck);
       hk = getHourKey (hourNow ck);
       uid = orEmpty (userId params);
       did = orEmpty (deviceId params);
       addr = orEmpty (ip params);
       userCount = getScopeCount g usage User uid wk;
       deviceCount = getScopeCount g usage Device did wk;
       ipCount = getIpHourlyCount g usage addr hk;
       limited = (case getLimitForPlan (qplan params) of
                    None \<Rightarrow> False | Some l \<Rightarrow> max userCount deviceCount \<ge> l);
       r = fst (consumeQuota g usage ck sk params);
       usage' = fst (snd (consumeQuota g usage ck sk params));
       g' = snd (snd (consumeQuota g usage ck sk params))
   in (ipCount \<ge> 30 \<longrightarrow>
         \<not> isAllowed r \<and> reasonOf r = Some IpRateLimit \<and> usage' = usage \<and> g' = g)
    \<and> (ipCount < 30 \<and> limited \<longrightarrow>
         \<not> isAllowed r \<and> reasonOf r = Some WeeklyLimit \<and> usage' = usage \<and> g' = g)
    \<and> (ipCount < 30 \<and> \<not> limited \<and> unextended g
          \<and> plainKey uid \<and> plainKey did \<and> plainKey addr \<longrightarrow>
         isAllowed r \<and> reasonOf r = None \<and> g' = g
         \<and> user usage' =
             (if uid = [] then user usage
              else (user usage)(uid \<mapsto> (ownBucket (user usage) uid)(wk \<mapsto> userCount + 1)))
         \<and> device usage' =
             (if did = [] then device usage
              else (device usage)(did \<mapsto> (ownBucket (device usage) did)(wk \<mapsto> deviceCount + 1)))
         \<and> ipHourly usage' =
             (if addr = [] then ipHourly usage
              else (ipHourly usage)
                     (addr \<mapsto> (ownBucket (ipHourly usage) addr)(hk \<mapsto> ipCount + 1))))"
proof -
  have ip: "ipReached g usage ck params \<longleftrightarrow>
      getIpHourlyCount g usage (orEmpty (ip params)) (getHourKey (hourNow ck)) \<ge> 30"
    by (simp add: ipReached_def IP_HOURLY_LIMIT_def)
  show ?thesis
  proof (cases "ipReached g usage ck params")
    case True
    then show ?thesis using ip by (simp add: consumeQuota_ip Let_def isAllowed_def reasonOf_def)
  next
    case no_ip: False
    show ?thesis
    proof (cases "weeklyReached g usage ck params")
      case True
      then show ?thesis using no_ip ip
        by (simp add: consumeQuota_weekly Let_def weeklyReached_def isAllowed_def reasonOf_def)
    next
      case no_wk: False
      show ?thesis
      proof (cases "unextended g \<and> plainKey (orEmpty (userId params))
          \<and> plainKey (orEmpty (deviceId params)) \<and> plainKey (orEmpty (ip params))")
        case True
        then have eq: "consumeQuota g usage ck sk params =
           (Inr \<lparr> allowed = True, reason = None,
                  snapshot = getQuotaSnapshot g (written usage ck params) sk params \<rparr>,
            written usage ck params, g)"
          using consumeQuota_allow_plain [OF no_ip no_wk] by blast
        show ?thesis using no_ip no_wk ip True
          by (simp add: eq Let_def weeklyReached_def isAllowed_def reasonOf_def written_def
              raise_def getScopeCount_plain getIpHourlyCount_plain table_simps)
      next
        case False
        then show ?thesis using no_ip no_wk ip
          by (auto simp: Let_def weeklyReached_def)
      qed
    qed
  qed
qed

theorem consumeQuota_checks_in_order_witness:
  "(\<not> isAllowed (fst (consumeQuota cleanRealm exUsageIpFull exClock exClock exParams))
      \<and> reasonOf (fst (consumeQuota cleanRealm exUsageIpFull exClock exClock exParams))
           = Some IpRateLimit
      \<and> fst (snd (consumeQuota cleanRealm exUsageIpFull exClock exClock exParams)) = exUsageIpFull)
   \<and> (\<not> isAllowed (fst (consumeQuota cleanRealm exUsageWeekFull exClock exClock exParams))
      \<and> reasonOf (fst (consumeQuota cleanRealm exUsageWeekFull exClock exClock exParams))
           = Some WeeklyLimit
      \<and> fst (snd (consumeQuota cleanRealm exUsageWeekFull exClock exClock exParams))
           = exUsageWeekFull)
   \<and> (isAllowed (fst (consumeQuota cleanRealm emptyUsage exClock exClock exParams))
      \<and> user (fst (snd (consumeQuota cleanRealm emptyUsage exClock exClock exParams)))
           = [''u1'' \<mapsto> [''2026-11-02'' \<mapsto> 1]]
      \<and> device (fst (snd (consumeQuota cleanRealm emptyUsage exClock exClock exParams)))
           = [''d1'' \<mapsto> [''2026-11-02'' \<mapsto> 1]]
      \<and> ipHourly (fst (snd (consumeQuota cleanRealm emptyUsage exClock exClock exParams)))
           = [''10.0.0.1'' \<mapsto> [''2026-11-02T10'' \<mapsto> 1]])"
proof -
  have wk: "getWeekKey (weekNow exClock) = ''2026-11-02''" by code_simp
  have hk: "getHourKey (hourNow exClock) = ''2026-11-02T10''" by code_simp
  have p: "orEmpty (userId exParams) = ''u1''" "orEmpty (deviceId exParams) = ''d1''"
    "orEmpty (ip exParams) = ''10.0.0.1''" "getLimitForPlan (qplan exParams) = Some 3"
    by (simp_all add: exParams_def orEmpty_def getLimitForPlan_def)
  have pk: "plainKey ''u1''" "plainKey ''d1''" "plainKey ''10.0.0.1''" by code_simp+
  have un: "unextended cleanRealm" by (simp add: unextended_def cleanRealm_def)
  have a: "getIpHourlyCount cleanRealm exUsageIpFull ''10.0.0.1'' ''2026-11-02T10'' = 30"
    by code_simp
  have b: "getIpHourlyCount cleanRealm exUsageWeekFull ''10.0.0.1'' ''2026-11-02T10'' = 0"
    "getScopeCount cleanRealm exUsageWeekFull User ''u1'' ''2026-11-02'' = 3"
    "getScopeCount cleanRealm exUsageWeekFull Device ''d1'' ''2026-11-02'' = 0"
    by code_simp+
  have c: "getIpHourlyCount cleanRealm emptyUsage ''10.0.0.1'' ''2026-11-02T10'' = 0"
    "getScopeCount cleanRealm emptyUsage User ''u1'' ''2026-11-02'' = 0"
    "getScopeCount cleanRealm emptyUsage Device ''d1'' ''2026-11-02'' = 0"
    by code_simp+
  have e: "ownBucket (user emptyUsage) ''u1'' = Map.empty"
    "ownBucket (device emptyUsage) ''d1'' = Map.empty"
    "ownBucket (ipHourly emptyUsage) ''10.0.0.1'' = Map.empty"
    "user emptyUsage = Map.empty" "device emptyUsage = Map.empty" "ipHourly emptyUsage = Map.empty"
    by (simp_all add: emptyUsage_def ownBucket_def)
  from consumeQuota_checks_in_order [of exClock exParams cleanRealm exUsageIpFull exClock]
  have A: "\<not> isAllowed (fst (consumeQuota cleanRealm exUsageIpFull exClock exClock exParams))
      \<and> reasonOf (fst (consumeQuota cleanRealm exUsageIpFull exClock exClock exParams))
           = Some IpRateLimit
      \<and> fst (snd (consumeQuota cleanRealm exUsageIpFull exClock exClock exParams)) = exUsageIpFull"
    by (simp add: Let_def wk hk p a)
  from consumeQuota_checks_in_order [of exClock exParams cleanRealm exUsageWeekFull exClock]
  have B: "\<not> isAllowed (fst (consumeQuota cleanRealm exUsageWeekFull exClock exClock exParams))
      \<and> reasonOf (fst (consumeQuota cleanRealm exUsageWeekFull exClock exClock exParams))
           = Some WeeklyLimit
      \<and> fst (snd (consumeQuota cleanRealm exUsageWeekFull exClock exClock exParams))
           = exUsageWeekFull"
    by (simp add: Let_def wk hk p b)
  from consumeQuota_checks_in_order [of exClock exParams cleanRealm emptyUsage exClock]
  have C: "isAllowed (fst (consumeQuota cleanRealm emptyUsage exClock exClock exParams))
      \<and> user (fst (snd (consumeQuota cleanRealm emptyUsage exClock exClock exParams)))
           = [''u1'' \<mapsto> [''2026-11-02'' \<mapsto> 1]]
      \<and> device (fst (snd (consumeQuota cleanRealm emptyUsage exClock exClock exParams)))
           = [''d1'' \<mapsto> [''2026-11-02'' \<mapsto> 1]]
      \<and> ipHourly (fst (snd (consumeQuota cleanRealm emptyUsage exClock exClock exParams)))
           = [''10.0.0.1'' \<mapsto> [''2026-11-02T10'' \<mapsto> 1]]"
    by (simp add: Let_def wk hk p c pk un e ownBucket_def)
  from A B C show ?thesis by blast
qed

text \<open>
  The claim as written has all three counters incremented on every allowed call. A caller
  with a user and a device identity but an empty address is allowed; the address table
  written back has no entry under the empty string, and the hourly count of that address
  is not one more than before. A caller with a device and an address but an empty user
  identity is allowed; the user table written back has no entry under the empty string,
  and its user count is not one more than before.
\<close>

theorem consumeQuota_all_incremented_counterexample:
  "getIpHourlyCount cleanRealm emptyUsage (orEmpty (ip exNoIpParams))
       (getHourKey (hourNow exClock)) < 30
   \<and> \<not> weeklyReached cleanRealm emptyUsage exClock exNoIpParams
   \<and> isAllowed (fst (consumeQuota cleanRealm emptyUsage exClock exClock exNoIpParams))
   \<and> \<not> hasOwn (ipHourly (fst (snd (consumeQuota cleanRealm emptyUsage exClock exClock
                                     exNoIpParams))))
          (orEmpty (ip exNoIpParams))
   \<and> getIpHourlyCount (snd (snd (consumeQuota cleanRealm emptyUsage exClock exClock exNoIpParams)))
        (fst (snd (consumeQuota cleanRealm emptyUsage exClock exClock exNoIpParams)))
        (orEmpty (ip exNoIpParams)) (getHourKey (hourNow exClock))
      \<noteq> getIpHourlyCount cleanRealm emptyUsage (orEmpty (ip exNoIpParams))
          (getHourKey (hourNow exClock)) + 1
   \<and> getIpHourlyCount cleanRealm emptyUsage (orEmpty (ip exAnonParams))
       (getHourKey (hourNow exClock)) < 30
   \<and> \<not> weeklyReached cleanRealm emptyUsage exClock exAnonParams
   \<and> isAllowed (fst (consumeQuota cleanRealm emptyUsage exClock exClock exAnonParams))
   \<and> \<not> hasOwn (user (fst (snd (consumeQuota cleanRealm emptyUsage exClock exClock exAnonParams))))
          (orEmpty (userId exAnonParams))
   \<and> getScopeCount (snd (snd (consumeQuota cleanRealm emptyUsage exClock exClock exAnonParams)))
        (fst (snd (consumeQuota cleanRealm emptyUsage exClock exClock exAnonParams)))
        User (orEmpty (userId exAnonParams)) (getWeekKey (weekNow exClock))
      \<noteq> getScopeCount cleanRealm emptyUsage User (orEmpty (userId exAnonParams))
          (getWeekKey (weekNow exClock)) + 1"
  by code_simp

subsection \<open>Weekly limits by plan\<close>

text \<open>
  Claim C5. The claim has the first three calls of a fixed identity on the \<^verbatim>\<open>free\<close> plan
  allowed and the fourth rejected. For the caller whose user and device identity are both
  \<^verbatim>\<open>__proto__\<close>, from the empty store and in one week that starts on Monday
  2026-11-02: in one process the first two calls are allowed and the third is already
  rejected with reason \<^verbatim>\<open>weekly-limit\<close>; the first call counts on \<^verbatim>\<open>Object.prototype\<close>
  (twice, once per scope) and the tables written back hold nothing under the identity; and
  when the process is started afresh before each call, the fourth call, and the fifth, are
  allowed. (For identities that name no property of \<^verbatim>\<open>Object.prototype\<close>, and for the
  \<^verbatim>\<open>studio\<close> plan, the claim holds: \<open>free_plan_plain_identity\<close> and
  \<open>studio_submissions\<close>.)
\<close>

theorem free_limit_miscounts_prototype_identity:
  "map isAllowed (submissions cleanRealm emptyUsage
       [exCall 1793577600000, exCall 1793613600000, exCall 1793700000000, exCall 1794182399999]
       exProtoParams) = [True, True, False, False]
   \<and> map reasonOf (submissions cleanRealm emptyUsage
       [exCall 1793577600000, exCall 1793613600000, exCall 1793700000000, exCall 1794182399999]
       exProtoParams) = [None, None, Some WeeklyLimit, Some WeeklyLimit]
   \<and> protoProps (snd (snd (consumeQuota cleanRealm emptyUsage exClock exClock exProtoParams)))
        ''2026-11-02'' = Some 2
   \<and> \<not> hasOwn (user (fst (snd (consumeQuota cleanRealm emptyUsage exClock exClock
                                   exProtoParams)))) ''__proto__''
   \<and> \<not> hasOwn (device (fst (snd (consumeQuota cleanRealm emptyUsage exClock exClock
                                     exProtoParams)))) ''__proto__''
   \<and> map isAllowed (restarted emptyUsage
       [exCall 1793577600000, exCall 1793613600000, exCall 1793700000000, exCall 1794182399999,
        exCall 1794182399999]
       exProtoParams) = [True, True, True, True, True]"
  by code_simp

subsection \<open>Rejection has no side effect\<close>

text \<open>
  Claim C7. When \<^verbatim>\<open>consumeQuota\<close> does not allow a call (it returns a rejection, reason
  \<^verbatim>\<open>ip-rate-limit\<close> or \<^verbatim>\<open>weekly-limit\<close>, or it throws), the usage store after the call is
  the store before it; and when it returns a rejection, the process is as before too, so
  every user, device and hourly address count read after the call is the count read before
  it.
\<close>

theorem consumeQuota_rejection_keeps_store:
  assumes "\<not> isAllowed (fst (consumeQuota g usage ck sk params))
     \<or> reasonOf (fst (consumeQuota g usage ck sk params)) = Some IpRateLimit
     \<or> reasonOf (fst (consumeQuota g usage ck sk params)) = Some WeeklyLimit"
  shows "fst (snd (consumeQuota g usage ck sk params)) = usage
   \<and> ((\<exists>q. fst (consumeQuota g usage ck sk params) = Inr q) \<longrightarrow>
        snd (snd (consumeQuota g usage ck sk params)) = g
        \<and> (\<forall>sc i k. getScopeCount (snd (snd (consumeQuota g usage ck sk params)))
                        (fst (snd (consumeQuota g usage ck sk params))) sc i k
                      = getScopeCount g usage sc i k)
        \<and> (\<forall>a h. getIpHourlyCount (snd (snd (consumeQuota g usage ck sk params)))
                       (fst (snd (consumeQuota g usage ck sk params))) a h
                     = getIpHourlyCount g usage a h))"
proof (cases "ipReached g usage ck params")
  case True
  then show ?thesis by (simp add: consumeQuota_ip)
next
  case no_ip: False
  show ?thesis
  proof (cases "weeklyReached g usage ck params")
    case True
    then show ?thesis using no_ip by (simp add: consumeQuota_weekly)
  next
    case False
    then show ?thesis using no_ip assms
      by (auto simp: consumeQuota_increments isAllowed_def reasonOf_def
          split: sum.splits prod.splits)
  qed
qed

theorem consumeQuota_rejection_keeps_store_witness:
  "reasonOf (fst (consumeQuota cleanRealm exUsageIpFull exClock exClock exParams))
     = Some IpRateLimit
   \<and> fst (snd (consumeQuota cleanRealm exUsageIpFull exClock exClock exParams)) = exUsageIpFull
   \<and> snd (snd (consumeQuota cleanRealm exUsageIpFull exClock exClock exParams)) = cleanRealm
   \<and> reasonOf (fst (consumeQuota cleanRealm exUsageWeekFull exClock exClock exParams))
     = Some WeeklyLimit
   \<and> fst (snd (consumeQuota cleanRealm exUsageWeekFull exClock exClock exParams))
     = exUsageWeekFull
   \<and> snd (snd (consumeQuota cleanRealm exUsageWeekFull exClock exClock exParams)) = cleanRealm"
proof -
  have a: "reasonOf (fst (consumeQuota cleanRealm exUsageIpFull exClock exClock exParams))
      = Some IpRateLimit"
    by code_simp
  have b: "reasonOf (fst (consumeQuota cleanRealm exUsageWeekFull exClock exClock exParams))
      = Some WeeklyLimit"
    by code_simp
  have a': "\<exists>q. fst (consumeQuota cleanRealm exUsageIpFull exClock exClock exParams) = Inr q"
    using a by (cases "fst (consumeQuota cleanRealm exUsageIpFull exClock exClock exParams)")
      (simp_all add: reasonOf_def)
  have b': "\<exists>q. fst (consumeQuota cleanRealm exUsageWeekFull exClock exClock exParams) = Inr q"
    using b by (cases "fst (consumeQuota cleanRealm exUsageWeekFull exClock exClock exParams)")
      (simp_all add: reasonOf_def)
  show ?thesis
    using a b a' b'
      consumeQuota_rejection_keeps_store [of cleanRealm exUsageIpFull exClock exClock exParams]
      consumeQuota_rejection_keeps_store [of cleanRealm exUsageWeekFull exClock exClock exParams]
    by blast
qed

subsection \<open>Calls without an address\<close>

text \<open>
  Claim C9. A call of \<^verbatim>\<open>consumeQuota\<close> whose address is the empty string (or absent) is
  never rejected with reason \<^verbatim>\<open>ip-rate-limit\<close>, and it leaves the hourly address table
  of the usage store unchanged.
\<close>

theorem consumeQuota_no_address:
  "ip params = Some [] \<or> ip params = None \<Longrightarrow>
   reasonOf (fst (consumeQuota g usage ck sk params)) \<noteq> Some IpRateLimit
   \<and> ipHourly (fst (snd (consumeQuota g usage ck sk params))) = ipHourly usage"
proof -
  assume "ip params = Some [] \<or> ip params = None"
  then have e: "orEmpty (ip params) = []" by (auto simp: orEmpty_def)
  then have n: "\<not> ipReached g usage ck params"
    by (simp add: ipReached_def getIpHourlyCount_def IP_HOURLY_LIMIT_def)
  show ?thesis
  proof (cases "weeklyReached g usage ck params")
    case True
    then show ?thesis using n by (simp add: consumeQuota_weekly reasonOf_def)
  next
    case False
    show ?thesis
      using incrementScope_ipHourly incrementIpHourly_empty
      by (auto simp: consumeQuota_increments [OF n False] e reasonOf_def
          split: sum.splits prod.splits)
  qed
qed

theorem consumeQuota_no_address_witness:
  "ip exNoIpParams = Some []
   \<and> reasonOf (fst (consumeQuota cleanRealm exUsageIpFull exClock exClock exNoIpParams))
       \<noteq> Some IpRateLimit
   \<and> ipHourly (fst (snd (consumeQuota cleanRealm exUsageIpFull exClock exClock exNoIpParams)))
       = ipHourly exUsageIpFull"
proof -
  have h: "ip exNoIpParams = Some []" by (simp add: exNoIpParams_def)
  then show ?thesis
    using consumeQuota_no_address [of exNoIpParams cleanRealm exUsageIpFull exClock exClock]
    by blast
qed

section \<open>Properties of the job store and the worker\<close>

subsection \<open>updateJob\<close>

lemma findIndex_None: "findIndex P xs = None \<longleftrightarrow> (\<forall>x \<in> set xs. \<not> P x)"
  by (induction xs) (auto split: option.splits)

lemma findIndex_Some:
  "findIndex P xs = Some i \<Longrightarrow> i < length xs \<and> P (xs ! i) \<and> (\<forall>k < i. \<not> P (xs ! k))"
proof (induction xs arbitrary: i)
  case Nil
  then show ?case by simp
next
  case (Cons x xs)
  show ?case
  proof (cases "P x")
    case True
    with Cons.prems show ?thesis by simp
  next
    case False
    with Cons.prems obtain j where j: "findIndex P xs = Some j" "i = Suc j"
      by (auto split: option.splits)
    from Cons.IH [OF j(1)] False j(2) show ?thesis
      by (auto simp: nth_Cons split: nat.splits)
  qed
qed

lemma updateJob_Nil: "updateJob job [] = []"
  by (simp add: updateJob_def)

lemma updateJob_Cons:
  "updateJob job (x # xs) = (if jobId x = jobId job then job # xs else x # updateJob job xs)"
  by (simp add: updateJob_def split: option.splits)

lemma map_jobId_updateJob: "map jobId (updateJob job js) = map jobId js"
  by (induction js) (simp_all add: updateJob_Nil updateJob_Cons)

lemma updateJob_absent: "jobId job \<notin> jobId ` set js \<Longrightarrow> updateJob job js = js"
  by (induction js) (auto simp: updateJob_Nil updateJob_Cons)

lemma set_updateJob:
  "distinct (map jobId js) \<Longrightarrow> old \<in> set js \<Longrightarrow> jobId old = jobId job \<Longrightarrow>
   set (updateJob job js) = insert job (set js - {old})"
proof (induction js)
  case Nil
  then show ?case by simp
next
  case (Cons x xs)
  show ?case
  proof (cases "jobId x = jobId job")
    case True
    with Cons.prems have "x = old" by (auto simp: image_iff)
    moreover from Cons.prems have "x \<notin> set xs" by auto
    ultimately show ?thesis using True by (auto simp: updateJob_Cons)
  next
    case False
    with Cons.prems have "old \<in> set xs" by auto
    with Cons False show ?thesis by (auto simp: updateJob_Cons)
  qed
qed

lemma updateJob_append:
  "updateJob job (xs @ ys) =
     (if jobId job \<in> jobId ` set xs then updateJob job xs @ ys else xs @ updateJob job ys)"
  by (induction xs) (auto simp: updateJob_Nil updateJob_Cons)

lemma find_jobId_updateJob:
  "find (\<lambda>j. jobId j = i) (updateJob job js) =
     (if i = jobId job \<and> i \<in> jobId ` set js then Some job else find (\<lambda>j. jobId j = i) js)"
  by (induction js) (auto simp: updateJob_Nil updateJob_Cons)

subsection \<open>Selection of the next job\<close>

lemma selectNext_hd:
  "selectNext js = (case sort_key createdAt (queuedJobs js) of [] \<Rightarrow> None | n # r \<Rightarrow> Some n)"
  by (simp add: selectNext_def queuedJobs_def)

lemma selectNext_None: "selectNext js = None \<longleftrightarrow> queuedJobs js = []"
proof -
  have "sort_key createdAt (queuedJobs js) = [] \<longleftrightarrow> queuedJobs js = []"
    by (metis length_sort list.size(3) length_0_conv)
  then show ?thesis by (cases "sort_key createdAt (queuedJobs js)") (auto simp: selectNext_hd)
qed

lemma selectNext_Some_sorted:
  "selectNext js = Some n \<longleftrightarrow> (\<exists>r. sort_key createdAt (queuedJobs js) = n # r)"
  by (simp add: selectNext_hd split: list.splits)

lemma selectNext_queued:
  assumes "selectNext js = Some n"
  shows "n \<in> set js" and "status n = Queued"
proof -
  from assms obtain r where r: "sort_key createdAt (queuedJobs js) = n # r"
    by (auto simp: selectNext_Some_sorted)
  have "n \<in> set (sort_key createdAt (queuedJobs js))" by (simp add: r)
  then have "n \<in> set (queuedJobs js)" by simp
  then show "n \<in> set js" and "status n = Queued" by (simp_all add: queuedJobs_def)
qed

lemma selectNext_oldest:
  assumes "selectNext js = Some n" and "k \<in> set js" and "status k = Queued"
  shows "createdAt n \<le> createdAt k"
proof -
  from assms(1) obtain r where r: "sort_key createdAt (queuedJobs js) = n # r"
    by (auto simp: selectNext_Some_sorted)
  have "sorted (map createdAt (sort_key createdAt (queuedJobs js)))" by (rule sorted_sort_key)
  then have s: "\<forall>x \<in> set r. createdAt n \<le> createdAt x" by (simp add: r)
  have "k \<in> set (sort_key createdAt (queuedJobs js))"
    using assms(2,3) by (simp add: queuedJobs_def)
  then show ?thesis using s by (auto simp: r)
qed

lemma find_filter_hd:
  "filter P xs = y # ys \<Longrightarrow> find P xs = Some y"
  by (induction xs) (auto split: if_splits)

lemma selectNext_first_inserted:
  assumes "selectNext js = Some n"
  shows "find (\<lambda>job. status job = Queued \<and> createdAt job = createdAt n) js = Some n"
proof -
  from assms obtain r where r: "sort_key createdAt (queuedJobs js) = n # r"
    by (auto simp: selectNext_Some_sorted)
  have "filter (\<lambda>y. createdAt y = createdAt n) (sort_key createdAt (queuedJobs js))
      = filter (\<lambda>y. createdAt y = createdAt n) (queuedJobs js)"
    by (rule sort_key_stable)
  then have "filter (\<lambda>y. createdAt y = createdAt n) (queuedJobs js)
      = n # filter (\<lambda>y. createdAt y = createdAt n) r"
    by (simp add: r)
  then have "filter (\<lambda>job. status job = Queued \<and> createdAt job = createdAt n) js
      = n # filter (\<lambda>y. createdAt y = createdAt n) r"
    by (simp add: queuedJobs_def conj_commute)
  then show ?thesis by (rule find_filter_hd)
qed

subsection \<open>One pass of the worker\<close>

lemma sort_key_remove_hd:
  assumes "sort_key f xs = n # r"
  shows "sort_key f (remove1 n xs) = r"
proof (rule properties_for_sort_key)
  have "mset (n # r) = mset xs" using assms by (metis mset_sort)
  then have "mset xs = add_mset n (mset r)" by simp
  then show "mset r = mset (remove1 n xs)" by simp
next
  fix k assume k: "k \<in> set r"
  have st: "filter (\<lambda>x. f k = f x) xs = filter (\<lambda>x. f k = f x) (n # r)"
  proof -
    have "filter (\<lambda>y. f y = f k) (sort_key f xs) = filter (\<lambda>y. f y = f k) xs"
      by (rule sort_key_stable)
    then show ?thesis by (simp add: assms eq_commute [of "f k"])
  qed
  have rm: "filter (\<lambda>x. f k = f x) (remove1 n xs)
      = remove1 n (filter (\<lambda>x. f k = f x) (n # r))"
    by (simp only: filter_remove1 st)
  show "filter (\<lambda>x. f k = f x) r = filter (\<lambda>x. f k = f x) (remove1 n xs)"
  proof (cases "f k = f n")
    case True
    then show ?thesis unfolding rm by simp
  next
    case False
    then have "n \<notin> set (filter (\<lambda>x. f k = f x) r)" by auto
    then show ?thesis unfolding rm using False by (simp add: remove1_idem)
  qed
next
  have "sorted (map f (sort_key f xs))" by (rule sorted_sort_key)
  then show "sorted (map f r)" by (simp add: assms)
qed

lemma updateJob_map:
  "distinct (map jobId js) \<Longrightarrow>
   updateJob job js = map (\<lambda>x. if jobId x = jobId job then job else x) js"
proof (induction js)
  case Nil
  then show ?case by (simp add: updateJob_Nil)
next
  case (Cons x xs)
  show ?case
  proof (cases "jobId x = jobId job")
    case True
    with Cons.prems have "jobId job \<notin> jobId ` set xs" by auto
    then have "\<forall>y \<in> set xs. jobId y \<noteq> jobId job" by (metis imageI)
    then have "map (\<lambda>x. if jobId x = jobId job then job else x) xs = xs"
      by (simp add: map_idI)
    then show ?thesis using True by (simp add: updateJob_Cons)
  next
    case False
    with Cons show ?thesis by (simp add: updateJob_Cons)
  qed
qed

lemma queuedJobs_updateJob:
  assumes "distinct (map jobId js)" and "status job \<noteq> Queued"
  shows "queuedJobs (updateJob job js) = filter (\<lambda>x. jobId x \<noteq> jobId job) (queuedJobs js)"
  unfolding updateJob_map [OF assms(1)] queuedJobs_def
  using assms(2) by (induction js) auto

lemma filter_other_ids:
  "distinct (map jobId xs) \<Longrightarrow> n \<in> set xs \<Longrightarrow>
   filter (\<lambda>x. jobId x \<noteq> jobId n) xs = remove1 n xs"
proof (induction xs)
  case Nil
  then show ?case by simp
next
  case (Cons x xs)
  show ?case
  proof (cases "x = n")
    case True
    with Cons.prems have "jobId n \<notin> jobId ` set xs" by auto
    then have "\<forall>y \<in> set xs. jobId y \<noteq> jobId n" by (metis imageI)
    then show ?thesis using True by simp
  next
    case False
    with Cons.prems have "n \<in> set xs" "jobId x \<noteq> jobId n" by (auto simp: image_iff)
    with Cons show ?thesis using False by simp
  qed
qed

lemma distinct_ids_queuedJobs:
  "distinct (map jobId js) \<Longrightarrow> distinct (map jobId (queuedJobs js))"
  by (simp add: queuedJobs_def distinct_map_filter)

lemma finishJob_shape:
  "\<exists>fin. jobs (finishJob env rj s) = updateJob fin (jobs s)
     \<and> jobId fin = jobId rj
     \<and> (status fin = Completed \<or> status fin = Failed)
     \<and> started (finishJob env rj s) = started s
     \<and> isProcessing (finishJob env rj s) = isProcessing s"
  by (cases "buildJob (env (jobId rj)) rj s") (auto simp: finishJob_def Let_def)

lemma iteration_queued:
  fixes env :: "string \<Rightarrow> JobEnv"
  assumes d: "distinct (map jobId (jobs s))"
    and n: "selectNext (jobs s) = Some nxt"
  defines "s1 \<equiv> finishJob env (runningOf nxt (startClock (env (jobId nxt)))) (startJob env nxt s)"
  shows "queuedJobs (jobs s1) = remove1 nxt (queuedJobs (jobs s))"
    and "distinct (map jobId (jobs s1))"
    and "started s1 = started s @ [jobId nxt]"
    and "isProcessing s1 = isProcessing s"
proof -
  let ?rj = "runningOf nxt (startClock (env (jobId nxt)))"
  obtain fin where fin: "jobs s1 = updateJob fin (jobs (startJob env nxt s))"
    "jobId fin = jobId ?rj" "status fin = Completed \<or> status fin = Failed"
    "started s1 = started (startJob env nxt s)"
    "isProcessing s1 = isProcessing (startJob env nxt s)"
    unfolding s1_def using finishJob_shape [of env ?rj "startJob env nxt s"] by blast
  have rj: "jobId ?rj = jobId nxt" "status ?rj \<noteq> Queued" by (simp_all add: runningOf_def)
  have j1: "jobs (startJob env nxt s) = updateJob ?rj (jobs s)" by (simp add: startJob_def)
  have d1: "distinct (map jobId (jobs (startJob env nxt s)))"
    by (simp add: j1 map_jobId_updateJob d)
  have nq: "nxt \<in> set (queuedJobs (jobs s))"
    using selectNext_queued [OF n] by (simp add: queuedJobs_def)
  have "queuedJobs (jobs s1)
      = filter (\<lambda>x. jobId x \<noteq> jobId nxt) (filter (\<lambda>x. jobId x \<noteq> jobId nxt) (queuedJobs (jobs s)))"
  proof -
    have f: "status fin \<noteq> Queued" using fin(3) by auto
    have "queuedJobs (jobs s1)
        = filter (\<lambda>x. jobId x \<noteq> jobId fin) (queuedJobs (jobs (startJob env nxt s)))"
      unfolding fin(1) by (rule queuedJobs_updateJob [OF d1 f])
    also have "queuedJobs (jobs (startJob env nxt s))
        = filter (\<lambda>x. jobId x \<noteq> jobId ?rj) (queuedJobs (jobs s))"
      unfolding j1 by (rule queuedJobs_updateJob [OF d rj(2)])
    finally show ?thesis by (simp add: fin(2) rj(1))
  qed
  also have "\<dots> = filter (\<lambda>x. jobId x \<noteq> jobId nxt) (queuedJobs (jobs s))" by simp
  also have "\<dots> = remove1 nxt (queuedJobs (jobs s))"
    by (rule filter_other_ids [OF distinct_ids_queuedJobs [OF d] nq])
  finally show "queuedJobs (jobs s1) = remove1 nxt (queuedJobs (jobs s))" .
  show "distinct (map jobId (jobs s1))" by (simp add: fin(1) map_jobId_updateJob d1)
  show "started s1 = started s @ [jobId nxt]" by (simp add: fin(4) startJob_def)
  show "isProcessing s1 = isProcessing s" by (simp add: fin(5) startJob_def)
qed

lemma drain_fifo:
  "distinct (map jobId (jobs s)) \<Longrightarrow>
   \<exists>s'. drain env s = Some s'
      \<and> started s' = started s @ map jobId (sort_key createdAt (queuedJobs (jobs s)))
      \<and> queuedJobs (jobs s') = []
      \<and> isProcessing s' = isProcessing s"
proof (induction "length (queuedJobs (jobs s))" arbitrary: s)
  case 0
  then have q: "queuedJobs (jobs s) = []" by simp
  then have "selectNext (jobs s) = None" by (simp add: selectNext_None)
  then have "drain env s = Some s" by (subst drain.simps) simp
  then show ?case using q by simp
next
  case (Suc m)
  then have "queuedJobs (jobs s) \<noteq> []" by auto
  then obtain nxt where n: "selectNext (jobs s) = Some nxt"
    using selectNext_None [of "jobs s"] by (cases "selectNext (jobs s)") auto
  then obtain r where r: "sort_key createdAt (queuedJobs (jobs s)) = nxt # r"
    by (auto simp: selectNext_Some_sorted)
  define s1 where
    "s1 = finishJob env (runningOf nxt (startClock (env (jobId nxt)))) (startJob env nxt s)"
  note it = iteration_queued [OF Suc.prems n, of env, folded s1_def]
  have nq: "nxt \<in> set (queuedJobs (jobs s))"
    using selectNext_queued [OF n] by (simp add: queuedJobs_def)
  have len: "m = length (queuedJobs (jobs s1))"
    using Suc.hyps(2) nq by (simp add: it(1) length_remove1)
  from Suc.hyps(1) [OF len it(2)] obtain s' where s':
    "drain env s1 = Some s'"
    "started s' = started s1 @ map jobId (sort_key createdAt (queuedJobs (jobs s1)))"
    "queuedJobs (jobs s') = []" "isProcessing s' = isProcessing s1"
    by blast
  have "drain env s = drain env s1"
    by (subst drain.simps) (simp add: n s1_def)
  moreover have "sort_key createdAt (queuedJobs (jobs s1)) = r"
    by (simp add: it(1) sort_key_remove_hd [OF r])
  ultimately show ?case using s' it(3,4) r by simp
qed

subsection \<open>The invariant of the schedules without overlap\<close>

lemma find_by_id:
  "distinct (map jobId js) \<Longrightarrow> j \<in> set js \<Longrightarrow> find (\<lambda>x. jobId x = jobId j) js = Some j"
proof (induction js)
  case Nil
  then show ?case by simp
next
  case (Cons x xs)
  show ?case
  proof (cases "x = j")
    case True
    then show ?thesis by simp
  next
    case False
    with Cons.prems have "j \<in> set xs" by simp
    with Cons.prems have "jobId x \<noteq> jobId j" by (metis distinct.simps(2) imageI list.simps(9) list.set_map)
    with Cons \<open>j \<in> set xs\<close> show ?thesis by simp
  qed
qed


lemma consistent_newJob: "consistent (newJob params ident now settings)"
  by (simp add: consistent_def newJob_def)

lemma consistent_runningOf:
  "consistent nxt \<Longrightarrow> status nxt = Queued \<Longrightarrow> consistent (runningOf nxt t)"
  by (simp add: consistent_def runningOf_def)

lemma finishJob_record:
  "\<exists>fin. jobs (finishJob env rj s) = updateJob fin (jobs s)
     \<and> jobId fin = jobId rj
     \<and> ((status fin = Completed \<and> artifact fin \<noteq> None \<and> error fin = error rj)
        \<or> (status fin = Failed \<and> error fin \<noteq> None \<and> artifact fin = artifact rj))"
  by (cases "buildJob (env (jobId rj)) rj s") (auto simp: finishJob_def Let_def)

lemma atomicInvariant_step:
  assumes inv: "atomicInvariant c" and st: "atomicStep env c c'"
  shows "atomicInvariant c'"
  using st inv
proof (cases rule: atomicStep.cases)
  case (create ident s w params now settings)
  have j: "jobs (snd (createJob params ident now settings s))
      = jobs s @ [newJob params ident now settings]"
    by (simp add: createJob_def Let_def)
  have i: "jobId (newJob params ident now settings) = ident" by (simp add: newJob_def)
  from inv create have d: "distinct (map jobId (jobs s))"
    and cs: "list_all consistent (jobs s)"
    and w: "\<forall>r. w = Some r \<longrightarrow> r \<in> set (jobs s) \<and> status r = Running"
    by (simp_all add: atomicInvariant_def)
  have "distinct (map jobId (jobs s @ [newJob params ident now settings]))"
    using d create(3) by (simp add: i)
  moreover have "list_all consistent (jobs s @ [newJob params ident now settings])"
    using cs by (simp add: consistent_newJob)
  ultimately show ?thesis using w create(2)
    by (auto simp: atomicInvariant_def j)
next
  case (enter s)
  then show ?thesis using inv by (simp add: atomicInvariant_def)
next
  case (start s nxt)
  let ?rj = "runningOf nxt (startClock (env (jobId nxt)))"
  from inv start have d: "distinct (map jobId (jobs s))"
    and cs: "list_all consistent (jobs s)" by (simp_all add: atomicInvariant_def)
  from selectNext_queued [OF start(4)] have nx: "nxt \<in> set (jobs s)" "status nxt = Queued" .
  have id: "jobId nxt = jobId ?rj" by (simp add: runningOf_def)
  have set': "set (updateJob ?rj (jobs s)) = insert ?rj (set (jobs s) - {nxt})"
    by (rule set_updateJob [OF d nx(1) id])
  have "consistent nxt" using cs nx(1) by (simp add: list_all_iff)
  then have "consistent ?rj" using nx(2) by (rule consistent_runningOf)
  then have "list_all consistent (updateJob ?rj (jobs s))"
    using cs by (auto simp: list_all_iff set')
  moreover have "distinct (map jobId (updateJob ?rj (jobs s)))"
    by (simp add: map_jobId_updateJob d)
  moreover have "?rj \<in> set (updateJob ?rj (jobs s))" by (simp add: set')
  moreover have "status ?rj = Running" by (simp add: runningOf_def)
  ultimately show ?thesis using start by (simp add: atomicInvariant_def startJob_def)
next
  case (finish s rj)
  from inv finish have d: "distinct (map jobId (jobs s))"
    and cs: "list_all consistent (jobs s)"
    and rj: "rj \<in> set (jobs s)" "status rj = Running" by (simp_all add: atomicInvariant_def)
  have "consistent rj" using cs rj(1) by (simp add: list_all_iff)
  then have none: "artifact rj = None" "error rj = None"
    using rj(2) by (simp_all add: consistent_def)
  obtain fin where fin: "jobs (finishJob env rj s) = updateJob fin (jobs s)"
    "jobId fin = jobId rj"
    "(status fin = Completed \<and> artifact fin \<noteq> None \<and> error fin = error rj)
        \<or> (status fin = Failed \<and> error fin \<noteq> None \<and> artifact fin = artifact rj)"
    using finishJob_record [of env rj s] by blast
  have cf: "consistent fin" using fin(3) none by (auto simp: consistent_def)
  have set': "set (updateJob fin (jobs s)) = insert fin (set (jobs s) - {rj})"
    by (rule set_updateJob [OF d rj(1)]) (simp add: fin(2))
  have "list_all consistent (updateJob fin (jobs s))"
    using cs cf by (auto simp: list_all_iff set')
  moreover have "distinct (map jobId (updateJob fin (jobs s)))"
    by (simp add: map_jobId_updateJob d)
  ultimately show ?thesis using finish by (simp add: atomicInvariant_def fin(1))
next
  case (leave s)
  then show ?thesis using inv by (simp add: atomicInvariant_def)
qed

lemma atomicInvariant_empty: "atomicInvariant (emptySystem, None)"
  by (simp add: atomicInvariant_def emptySystem_def)

lemma atomicReachable_invariant: "atomicReachable env c \<Longrightarrow> atomicInvariant c"
  unfolding atomicReachable_def
  by (induction rule: rtranclp_induct) (auto simp: atomicInvariant_empty intro: atomicInvariant_step)

subsection \<open>Status moves\<close>

lemma statusOf_updateJob:
  "statusOf (s\<lparr> jobs := updateJob job (jobs s) \<rparr>) i =
     (if i = jobId job \<and> i \<in> jobId ` set (jobs s) then Some (status job) else statusOf s i)"
  by (auto simp: statusOf_def getJob_def find_jobId_updateJob)

lemma find_snoc:
  "find P (xs @ [y]) = (case find P xs of Some x \<Rightarrow> Some x | None \<Rightarrow> if P y then Some y else None)"
  by (induction xs) auto

lemma statusOf_jobs_cong: "jobs s = jobs t \<Longrightarrow> statusOf s i = statusOf t i"
  by (simp add: statusOf_def getJob_def)

lemma statusOf_member:
  "distinct (map jobId (jobs s)) \<Longrightarrow> j \<in> set (jobs s) \<Longrightarrow> statusOf s (jobId j) = Some (status j)"
  by (simp add: statusOf_def getJob_def find_by_id)

lemma atomic_move_step:
  assumes inv: "atomicInvariant c" and st: "atomicStep env c c'"
  shows "allowedMove (statusOf (fst c) i) (statusOf (fst c') i)"
  using st
proof (cases rule: atomicStep.cases)
  case (create ident s w params now settings)
  have "statusOf (snd (createJob params ident now settings s)) i
      = (case statusOf s i of Some x \<Rightarrow> Some x
         | None \<Rightarrow> if i = ident then Some Queued else None)"
  proof -
    have "jobId (newJob params ident now settings) = ident"
      "status (newJob params ident now settings) = Queued"
      by (simp_all add: newJob_def)
    then show ?thesis
      by (cases "find (\<lambda>job. jobId job = i) (jobs s)")
         (auto simp: statusOf_def getJob_def createJob_def Let_def find_snoc)
  qed
  then show ?thesis using create
    by (auto simp: allowedMove_def split: option.splits if_splits)
next
  case (enter s)
  then show ?thesis by (simp add: allowedMove_def statusOf_def getJob_def)
next
  case (start s nxt)
  let ?rj = "runningOf nxt (startClock (env (jobId nxt)))"
  from inv start have d: "distinct (map jobId (jobs s))" by (simp add: atomicInvariant_def)
  from selectNext_queued [OF start(4)] have nx: "nxt \<in> set (jobs s)" "status nxt = Queued" .
  have before: "statusOf s (jobId nxt) = Some Queued"
    using statusOf_member [OF d nx(1)] nx(2) by simp
  have "statusOf (startJob env nxt s) i = statusOf (s\<lparr> jobs := updateJob ?rj (jobs s) \<rparr>) i"
    by (rule statusOf_jobs_cong) (simp add: startJob_def)
  also have "\<dots> = (if i = jobId nxt \<and> i \<in> jobId ` set (jobs s) then Some Running
                    else statusOf s i)"
    by (auto simp: statusOf_updateJob runningOf_def)
  finally show ?thesis using start before by (auto simp: allowedMove_def)
next
  case (finish s rj)
  from inv finish have d: "distinct (map jobId (jobs s))"
    and rj: "rj \<in> set (jobs s)" "status rj = Running" by (simp_all add: atomicInvariant_def)
  obtain fin where fin: "jobs (finishJob env rj s) = updateJob fin (jobs s)"
    "jobId fin = jobId rj"
    "(status fin = Completed \<and> artifact fin \<noteq> None \<and> error fin = error rj)
        \<or> (status fin = Failed \<and> error fin \<noteq> None \<and> artifact fin = artifact rj)"
    using finishJob_record [of env rj s] by blast
  have before: "statusOf s (jobId rj) = Some Running"
    using statusOf_member [OF d rj(1)] rj(2) by simp
  have "statusOf (finishJob env rj s) i = statusOf (s\<lparr> jobs := updateJob fin (jobs s) \<rparr>) i"
    by (rule statusOf_jobs_cong) (simp add: fin(1))
  also have "\<dots> = (if i = jobId rj \<and> i \<in> jobId ` set (jobs s) then Some (status fin)
                    else statusOf s i)"
    by (auto simp: statusOf_updateJob fin(2))
  finally show ?thesis using finish before fin(3) by (auto simp: allowedMove_def)
next
  case (leave s)
  then show ?thesis by (simp add: allowedMove_def statusOf_def getJob_def)
qed

subsection \<open>A pass is a sequence of moves\<close>

lemma drain_atomicSteps:
  assumes "drain env s = Some s'"
  shows "isProcessing s \<longrightarrow>
    (atomicStep env)\<^sup>*\<^sup>* (s, None) (s', None) \<and> isProcessing s' \<and> selectNext (jobs s') = None"
  using assms
proof (induction rule: drain.raw_induct [rotated 1, consumes 1])
  case (1 drain' env s y)
  show ?case
  proof (cases "selectNext (jobs s)")
    case None
    with 1 show ?thesis by simp
  next
    case (Some nxt)
    let ?rj = "runningOf nxt (startClock (env (jobId nxt)))"
    let ?s1 = "startJob env nxt s"
    let ?s2 = "finishJob env ?rj ?s1"
    from 1(2) Some have y: "drain' env ?s2 = Some y" by simp
    show ?thesis
    proof
      assume p: "isProcessing s"
      have a: "atomicStep env (s, None) (?s1, Some ?rj)" using p Some by (rule atomicStep.start)
      have b: "atomicStep env (?s1, Some ?rj) (?s2, None)" by (rule atomicStep.finish)
      have p2: "isProcessing ?s2"
        using finishJob_shape [of env ?rj ?s1] p by (auto simp: startJob_def)
      from 1(1) [OF y] p2 have
        "(atomicStep env)\<^sup>*\<^sup>* (?s2, None) (y, None) \<and> isProcessing y \<and> selectNext (jobs y) = None"
        by simp
      then show "(atomicStep env)\<^sup>*\<^sup>* (s, None) (y, None) \<and> isProcessing y \<and> selectNext (jobs y) = None"
        using a b by (meson converse_rtranclp_into_rtranclp)
    qed
  qed
qed

lemma processQueue_atomicSteps:
  assumes "processQueue env s = Some s'"
  shows "(atomicStep env)\<^sup>*\<^sup>* (s, None) (s', None)"
proof (cases "isProcessing s")
  case True
  with assms show ?thesis by (simp add: processQueue_def)
next
  case False
  with assms obtain t where t: "drain env (s\<lparr> isProcessing := True \<rparr>) = Some t"
    "s' = t\<lparr> isProcessing := False \<rparr>"
    by (auto simp: processQueue_def)
  have a: "atomicStep env (s, None) (s\<lparr> isProcessing := True \<rparr>, None)"
    using False by (rule atomicStep.enter)
  from drain_atomicSteps [OF t(1)] have b:
    "(atomicStep env)\<^sup>*\<^sup>* (s\<lparr> isProcessing := True \<rparr>, None) (t, None)"
    "isProcessing t" "selectNext (jobs t) = None" by simp_all
  have c: "atomicStep env (t, None) (t\<lparr> isProcessing := False \<rparr>, None)"
    using b(2,3) by (rule atomicStep.leave)
  show ?thesis using a b(1) c t(2)
    by (meson converse_rtranclp_into_rtranclp rtranclp.rtrancl_into_rtrancl)
qed

subsection \<open>Moves of the interleaving\<close>

lemma stepI: "move env m c = Some c' \<Longrightarrow> step env c c'"
  by (auto simp: step_def)

lemma run_append:
  "run env (ms @ ns) c = (case run env ms c of None \<Rightarrow> None | Some c' \<Rightarrow> run env ns c')"
  by (induction ms arbitrary: c) (auto split: option.splits)

lemma run_steps: "run env ms c = Some c' \<Longrightarrow> (step env)\<^sup>*\<^sup>* c c'"
proof (induction ms arbitrary: c)
  case Nil
  then show ?case by simp
next
  case (Cons m ms)
  then obtain c1 where c1: "move env m c = Some c1" "run env ms c1 = Some c'"
    by (auto split: option.splits)
  from stepI [OF c1(1)] Cons.IH [OF c1(2)] show ?case
    by (rule converse_rtranclp_into_rtranclp)
qed

lemma reachable_empty: "reachable env (emptySystem, idleControl)"
  by (simp add: reachable_def)

lemma reachable_step: "reachable env c \<Longrightarrow> step env c c' \<Longrightarrow> reachable env c'"
  unfolding reachable_def by (rule rtranclp.rtrancl_into_rtrancl)

lemma reachable_steps: "reachable env c \<Longrightarrow> (step env)\<^sup>*\<^sup>* c c' \<Longrightarrow> reachable env c'"
  unfolding reachable_def by (rule rtranclp_trans)

lemma reachable_run: "reachable env c \<Longrightarrow> run env ms c = Some c' \<Longrightarrow> reachable env c'"
  by (rule reachable_steps [OF _ run_steps])

lemma set_dropAt: "set (dropAt n xs) \<subseteq> set xs"
  using set_take_subset [of n xs] set_drop_subset [of "Suc n" xs] by (auto simp: dropAt_def)

lemma dropAt_length: "dropAt (length xs) (xs @ [x]) = xs"
  by (simp add: dropAt_def)

lemma updateRead_set: "updateRead job js = Some arr \<Longrightarrow> set arr \<subseteq> insert job (set js)"
  using set_update_subset_insert [of js _ job]
  by (auto simp: updateRead_def split: option.splits)

lemma updateRead_mem:
  "updateRead job js = Some arr \<Longrightarrow> x \<in> set arr \<Longrightarrow> x = job \<or> x \<in> set js"
  using updateRead_set by blast

lemma updateJob_updateRead:
  "updateJob job js = (case updateRead job js of None \<Rightarrow> js | Some arr \<Rightarrow> arr)"
  by (simp add: updateJob_def updateRead_def split: option.splits)

lemma runningOf_simps:
  "jobId (runningOf nxt t) = jobId nxt" "input (runningOf nxt t) = input nxt"
  "status (runningOf nxt t) = Running" "artifact (runningOf nxt t) = artifact nxt"
  "error (runningOf nxt t) = None"
  by (simp_all add: runningOf_def)

lemma completedJobOf_simps:
  "jobId (completedJobOf rj e result) = jobId rj" "input (completedJobOf rj e result) = input rj"
  "status (completedJobOf rj e result) = Completed" "artifact (completedJobOf rj e result) \<noteq> None"
  "error (completedJobOf rj e result) = error rj"
  by (simp_all add: completedJobOf_def)



subsection \<open>The invariant of the interleaving\<close>

lemma consistent_completedJobOf:
  "consistent rj \<Longrightarrow> status rj = Running \<Longrightarrow> consistent (completedJobOf rj e result)"
  by (simp add: consistent_def completedJobOf_def)

lemma consistent_failedJobOf:
  "consistent rj \<Longrightarrow> status rj = Running \<Longrightarrow> consistent (failedJobOf rj e message)"
  by (simp add: consistent_def failedJobOf_def)

lemma invariant_move:
  assumes m: "move env m (s, k) = Some c'" and inv: "invariant (s, k)"
  shows "invariant c'"
proof (cases m)
  case (StageJob params ident now settings)
  then show ?thesis using m inv
    by (auto simp: invariant_def recordList_def list_all_iff ball_Un consistent_newJob split: if_splits)
next
  case (CreateRead n)
  then show ?thesis using m inv set_dropAt [of n "staged k"]
    by (auto simp: invariant_def recordList_def list_all_iff ball_Un split: if_splits)
next
  case (CreateWrite n)
  then show ?thesis using m inv set_dropAt [of n "pending k"]
    by (auto simp: invariant_def recordList_def list_all_iff ball_Un split: if_splits)
next
  case Enter
  then show ?thesis using m inv
    by (auto simp: invariant_def recordList_def list_all_iff ball_Un split: if_splits)
next
  case Pick
  then show ?thesis using m inv selectNext_queued consistent_runningOf
    by (auto simp: invariant_def recordList_def list_all_iff ball_Un runningOf_simps
        split: if_splits option.splits)
next
  case MarkRead
  then show ?thesis using m inv
    by (auto simp: invariant_def recordList_def list_all_iff ball_Un dest: updateRead_mem
        split: Worker.splits option.splits)
next
  case MarkWrite
  then show ?thesis using m inv
    by (auto simp: invariant_def recordList_def list_all_iff ball_Un split: Worker.splits)
next
  case Build
  then show ?thesis using m inv
    by (auto simp: invariant_def recordList_def list_all_iff ball_Un
        consistent_completedJobOf consistent_failedJobOf split: Worker.splits sum.splits)
next
  case FinRead
  then show ?thesis using m inv
    by (auto simp: invariant_def recordList_def list_all_iff ball_Un afterUpdate_def
        dest: updateRead_mem split: Worker.splits option.splits if_splits)
next
  case FinWrite
  then show ?thesis using m inv
    by (auto simp: invariant_def recordList_def list_all_iff ball_Un afterUpdate_def
        split: Worker.splits if_splits)
next
  case Clean
  then show ?thesis using m inv
    by (auto simp: invariant_def recordList_def list_all_iff ball_Un split: Worker.splits)
next
  case Leave
  then show ?thesis using m inv
    by (auto simp: invariant_def recordList_def list_all_iff ball_Un split: if_splits option.splits)
qed

lemma invariant_empty: "invariant (emptySystem, idleControl)"
  by (simp add: invariant_def recordList_def emptySystem_def idleControl_def)

lemma reachable_invariant: "reachable env c \<Longrightarrow> invariant c"
  unfolding reachable_def
proof (induction rule: rtranclp_induct)
  case base
  show ?case by (rule invariant_empty)
next
  case (step y z)
  then obtain m where "move env m y = Some z" by (auto simp: step_def)
  then show ?case using step.IH invariant_move [of env m "fst y" "snd y" z] by simp
qed

subsection \<open>Inputs and staging directories\<close>














subsection \<open>Calls that do not overlap, as schedules of the interleaving\<close>

lemma racy_create:
  assumes "ident \<notin> jobId ` set (recordList (s, k))"
  shows "run env [StageJob params ident now settings, CreateRead (length (staged k)),
                  CreateWrite (length (pending k))] (s, k)
         = Some (snd (createJob params ident now settings s), k)"
  using assms by (simp add: createJob_def Let_def dropAt_length)

lemma racy_start:
  assumes p: "isProcessing s" and i: "worker k = Idle" and n: "selectNext (jobs s) = Some nxt"
  shows "(step env)\<^sup>*\<^sup>* (s, k)
    (startJob env nxt s, k\<lparr> worker := Building (runningOf nxt (startClock (env (jobId nxt)))) \<rparr>)"
proof (cases "updateRead (runningOf nxt (startClock (env (jobId nxt)))) (jobs s)")
  case None
  have "run env [Pick, MarkRead] (s, k)
    = Some (startJob env nxt s,
            k\<lparr> worker := Building (runningOf nxt (startClock (env (jobId nxt)))) \<rparr>)"
    using p i n None by (simp add: startJob_def updateJob_updateRead)
  then show ?thesis by (rule run_steps)
next
  case (Some arr)
  have "run env [Pick, MarkRead, MarkWrite] (s, k)
    = Some (startJob env nxt s,
            k\<lparr> worker := Building (runningOf nxt (startClock (env (jobId nxt)))) \<rparr>)"
    using p i n Some by (simp add: startJob_def updateJob_updateRead)
  then show ?thesis by (rule run_steps)
qed

lemma racy_finish:
  assumes w: "worker k = Building rj"
  shows "(step env)\<^sup>*\<^sup>* (s, k) (finishJob env rj s, k\<lparr> worker := Idle \<rparr>)"
proof (cases "buildJob (env (jobId rj)) rj s")
  case (Inl message)
  let ?fin = "failedJobOf rj (env (jobId rj)) message"
  show ?thesis
  proof (cases "updateRead ?fin (jobs s)")
    case None
    have "run env [Build, FinRead] (s, k) = Some (finishJob env rj s, k\<lparr> worker := Idle \<rparr>)"
      using w Inl None
      by (simp add: finishJob_def Let_def updateJob_updateRead afterUpdate_def
          failedJobOf_def [symmetric])
    then show ?thesis by (rule run_steps)
  next
    case (Some arr)
    have "run env [Build, FinRead, FinWrite] (s, k)
        = Some (finishJob env rj s, k\<lparr> worker := Idle \<rparr>)"
      using w Inl Some
      by (simp add: finishJob_def Let_def updateJob_updateRead afterUpdate_def
          failedJobOf_def [symmetric])
    then show ?thesis by (rule run_steps)
  qed
next
  case (Inr result)
  let ?fin = "completedJobOf rj (env (jobId rj)) result"
  show ?thesis
  proof (cases "updateRead ?fin (jobs s)")
    case None
    have "run env [Build, FinRead, Clean] (s, k)
        = Some (finishJob env rj s, k\<lparr> worker := Idle \<rparr>)"
      using w Inr None
      by (simp add: finishJob_def Let_def updateJob_updateRead afterUpdate_def
          completedJobOf_def [symmetric] completedJobOf_simps)
    then show ?thesis by (rule run_steps)
  next
    case (Some arr)
    have "run env [Build, FinRead, FinWrite, Clean] (s, k)
        = Some (finishJob env rj s, k\<lparr> worker := Idle \<rparr>)"
      using w Inr Some
      by (simp add: finishJob_def Let_def updateJob_updateRead afterUpdate_def
          completedJobOf_def [symmetric] completedJobOf_simps)
    then show ?thesis by (rule run_steps)
  qed
qed

lemma racy_iteration:
  assumes p: "isProcessing s" and i: "worker k = Idle" and n: "selectNext (jobs s) = Some nxt"
  shows "(step env)\<^sup>*\<^sup>* (s, k)
    (finishJob env (runningOf nxt (startClock (env (jobId nxt)))) (startJob env nxt s), k)"
proof -
  let ?rj = "runningOf nxt (startClock (env (jobId nxt)))"
  have "(step env)\<^sup>*\<^sup>* (startJob env nxt s, k\<lparr> worker := Building ?rj \<rparr>)
      (finishJob env ?rj (startJob env nxt s), k\<lparr> worker := Building ?rj \<rparr>\<lparr> worker := Idle \<rparr>)"
    by (rule racy_finish) simp
  moreover have "k\<lparr> worker := Building ?rj \<rparr>\<lparr> worker := Idle \<rparr> = k" using i by simp
  ultimately show ?thesis using racy_start [OF p i n, of env] by simp
qed

lemma drain_steps:
  assumes "drain env s = Some s'"
  shows "isProcessing s \<longrightarrow> worker k = Idle \<longrightarrow>
    (step env)\<^sup>*\<^sup>* (s, k) (s', k) \<and> isProcessing s' \<and> selectNext (jobs s') = None"
  using assms
proof (induction rule: drain.raw_induct [rotated 1, consumes 1])
  case (1 drain' env s y)
  show ?case
  proof (cases "selectNext (jobs s)")
    case None
    with 1 show ?thesis by simp
  next
    case (Some nxt)
    let ?rj = "runningOf nxt (startClock (env (jobId nxt)))"
    let ?s1 = "startJob env nxt s"
    let ?s2 = "finishJob env ?rj ?s1"
    from 1(2) Some have y: "drain' env ?s2 = Some y" by simp
    show ?thesis
    proof (intro impI)
      assume p: "isProcessing s" and i: "worker k = Idle"
      have a: "(step env)\<^sup>*\<^sup>* (s, k) (?s2, k)" by (rule racy_iteration [OF p i Some])
      have p2: "isProcessing ?s2"
        using finishJob_shape [of env ?rj ?s1] p by (auto simp: startJob_def)
      from 1(1) [OF y] p2 i have
        "(step env)\<^sup>*\<^sup>* (?s2, k) (y, k) \<and> isProcessing y \<and> selectNext (jobs y) = None"
        by simp
      then show "(step env)\<^sup>*\<^sup>* (s, k) (y, k) \<and> isProcessing y \<and> selectNext (jobs y) = None"
        using a by (meson rtranclp_trans)
    qed
  qed
qed

lemma processQueue_steps:
  assumes "processQueue env s = Some s'" and i: "worker k = Idle"
  shows "(step env)\<^sup>*\<^sup>* (s, k) (s', k)"
proof (cases "isProcessing s")
  case True
  with assms show ?thesis by (simp add: processQueue_def)
next
  case False
  with assms obtain t where t: "drain env (s\<lparr> isProcessing := True \<rparr>) = Some t"
    "s' = t\<lparr> isProcessing := False \<rparr>"
    by (auto simp: processQueue_def)
  have a: "step env (s, k) (s\<lparr> isProcessing := True \<rparr>, k)"
    using False by (intro stepI [of env Enter]) simp
  from drain_steps [OF t(1), of k] i have b:
    "(step env)\<^sup>*\<^sup>* (s\<lparr> isProcessing := True \<rparr>, k) (t, k)"
    "isProcessing t" "selectNext (jobs t) = None" by simp_all
  have c: "step env (t, k) (t\<lparr> isProcessing := False \<rparr>, k)"
    using b(2,3) i by (intro stepI [of env Leave]) simp
  show ?thesis using a b(1) c t(2)
    by (meson converse_rtranclp_into_rtranclp rtranclp.rtrancl_into_rtrancl)
qed

lemma reachable_processQueue:
  "reachable env (s, k) \<Longrightarrow> worker k = Idle \<Longrightarrow> processQueue env s = Some s' \<Longrightarrow>
   reachable env (s', k)"
  using reachable_steps processQueue_steps by blast

lemma reachable_createJob:
  "reachable env (s, k) \<Longrightarrow> ident \<notin> jobId ` set (recordList (s, k)) \<Longrightarrow>
   reachable env (snd (createJob params ident now settings s), k)"
  using reachable_run racy_create by blast

lemma atomicStep_steps:
  assumes inv: "atomicInvariant c" and st: "atomicStep env c c'"
  shows "(step env)\<^sup>*\<^sup>* (fst c, ctl (snd c)) (fst c', ctl (snd c'))"
  using st
proof (cases rule: atomicStep.cases)
  case (create ident s w params now settings)
  have "set (recordList (s, ctl w)) \<subseteq> set (jobs s)"
    using inv create(1) by (auto simp: recordList_def ctl_def atomicInvariant_def split: option.splits)
  then have "ident \<notin> jobId ` set (recordList (s, ctl w))" using create(3) by blast
  from run_steps [OF racy_create [OF this]] show ?thesis using create(1,2) by simp
next
  case (enter s)
  have "step env (s, ctl None) (s\<lparr> isProcessing := True \<rparr>, ctl None)"
    using enter(3) by (intro stepI [of env Enter]) simp
  then show ?thesis using enter(1,2) by simp
next
  case (start s nxt)
  have "ctl None\<lparr> worker := Building (runningOf nxt (startClock (env (jobId nxt)))) \<rparr>
      = ctl (Some (runningOf nxt (startClock (env (jobId nxt)))))"
    by (simp add: ctl_def)
  then show ?thesis
    using racy_start [OF start(3) _ start(4), of "ctl None" env] start(1,2)
    by (simp add: ctl_def)
next
  case (finish s rj)
  have "ctl (Some rj)\<lparr> worker := Idle \<rparr> = ctl None" by (simp add: ctl_def)
  then show ?thesis
    using racy_finish [of "ctl (Some rj)" rj env s] finish(1,2) by (simp add: ctl_def)
next
  case (leave s)
  have "step env (s, ctl None) (s\<lparr> isProcessing := False \<rparr>, ctl None)"
    using leave(3,4) by (intro stepI [of env Leave]) (simp add: ctl_def)
  then show ?thesis using leave(1,2) by simp
qed

lemma atomicReachable_reachable:
  "atomicReachable env c \<Longrightarrow> reachable env (fst c, ctl (snd c))"
  unfolding atomicReachable_def
proof (induction rule: rtranclp_induct)
  case base
  have "ctl None = idleControl" by (simp add: ctl_def idleControl_def)
  then show ?case by (simp add: reachable_empty)
next
  case (step y z)
  have "atomicInvariant y"
    using step.hyps(1) atomicReachable_invariant by (simp add: atomicReachable_def)
  from reachable_steps [OF step.IH atomicStep_steps [OF this step.hyps(2)]] show ?case .
qed

subsection \<open>Order of processing\<close>

lemma processQueue_fifo:
  assumes d: "distinct (map jobId (jobs s))" and p: "\<not> isProcessing s"
  shows "\<exists>s'. processQueue env s = Some s'
      \<and> started s' = started s @ map jobId (sort_key createdAt (queuedJobs (jobs s)))
      \<and> queuedJobs (jobs s') = []"
proof -
  have "distinct (map jobId (jobs (s\<lparr> isProcessing := True \<rparr>)))" using d by simp
  from drain_fifo [OF this, of env] obtain t where
    t: "drain env (s\<lparr> isProcessing := True \<rparr>) = Some t"
    "started t = started s @ map jobId (sort_key createdAt (queuedJobs (jobs s)))"
    "queuedJobs (jobs t) = []"
    by auto
  then show ?thesis using p by (simp add: processQueue_def)
qed

lemma exJobs3: "map jobId (jobs exSystem3) = [''job-1'', ''job-2'', ''job-3'']"
  by code_simp

text \<open>
  Claim C6. Whenever the worker selects the next job, it takes, among the jobs with status
  \<^verbatim>\<open>queued\<close>, one with the smallest creation timestamp, and among the queued jobs with
  that timestamp the one that stands first in the store, that is, the one inserted first;
  it finds a job whenever one is queued. A pass of the worker over a store with unique ids
  therefore ends, leaves no job queued, and starts the jobs that were queued in the order
  of their creation timestamps, jobs of equal timestamp in the order of insertion.
\<close>

theorem worker_takes_oldest_queued_first:
  "(selectNext js = Some nxt \<longrightarrow>
      nxt \<in> set js \<and> status nxt = Queued
      \<and> (\<forall>k \<in> set js. status k = Queued \<longrightarrow> createdAt nxt \<le> createdAt k)
      \<and> find (\<lambda>job. status job = Queued \<and> createdAt job = createdAt nxt) js = Some nxt)
   \<and> ((\<exists>k \<in> set js. status k = Queued) \<longrightarrow> selectNext js \<noteq> None)
   \<and> (distinct (map jobId (jobs s)) \<and> \<not> isProcessing s \<longrightarrow>
        (\<exists>s'. processQueue env s = Some s'
           \<and> started s' = started s @ map jobId (sort_key createdAt (queuedJobs (jobs s)))
           \<and> queuedJobs (jobs s') = []))"
proof (intro conjI impI)
  assume n: "selectNext js = Some nxt"
  show "nxt \<in> set js" and "status nxt = Queued" using selectNext_queued [OF n] .
  show "\<forall>k \<in> set js. status k = Queued \<longrightarrow> createdAt nxt \<le> createdAt k"
    using selectNext_oldest [OF n] by blast
  show "find (\<lambda>job. status job = Queued \<and> createdAt job = createdAt nxt) js = Some nxt"
    by (rule selectNext_first_inserted [OF n])
next
  assume "\<exists>k \<in> set js. status k = Queued"
  then have "queuedJobs js \<noteq> []" by (auto simp: queuedJobs_def filter_empty_conv)
  then show "selectNext js \<noteq> None" by (simp add: selectNext_None)
next
  assume "distinct (map jobId (jobs s)) \<and> \<not> isProcessing s"
  then show "\<exists>s'. processQueue env s = Some s'
           \<and> started s' = started s @ map jobId (sort_key createdAt (queuedJobs (jobs s)))
           \<and> queuedJobs (jobs s') = []"
    using processQueue_fifo by blast
qed

theorem worker_takes_oldest_queued_first_witness:
  "map_option jobId (selectNext (jobs exSystem3)) = Some ''job-3''
   \<and> map_option createdAt (selectNext (jobs exSystem3)) = Some 900
   \<and> map_option jobId (selectNext (jobs exSystem2)) = Some ''job-1''
   \<and> selectNext (jobs exSystem2)
       = find (\<lambda>job. status job = Queued \<and> createdAt job = 1000) (jobs exSystem2)
   \<and> map_option started (processQueue exEnv exSystem3) = Some [''job-3'', ''job-1'', ''job-2'']"
proof -
  have a: "map_option jobId (selectNext (jobs exSystem3)) = Some ''job-3''"
    "map_option createdAt (selectNext (jobs exSystem3)) = Some 900"
    "map_option jobId (selectNext (jobs exSystem2)) = Some ''job-1''"
    "map_option createdAt (selectNext (jobs exSystem2)) = Some 1000"
    by code_simp+
  from a(3) obtain n2 where n2: "selectNext (jobs exSystem2) = Some n2" by auto
  with a(4) have c2: "createdAt n2 = 1000" by simp
  have tie: "selectNext (jobs exSystem2)
      = find (\<lambda>job. status job = Queued \<and> createdAt job = 1000) (jobs exSystem2)"
    using worker_takes_oldest_queued_first [of "jobs exSystem2" n2] n2 c2 by simp
  have d: "distinct (map jobId (jobs exSystem3))" by (simp add: exJobs3)
  have p: "\<not> isProcessing exSystem3" by code_simp
  have st: "started exSystem3 = []" by code_simp
  have so: "map jobId (sort_key createdAt (queuedJobs (jobs exSystem3)))
      = [''job-3'', ''job-1'', ''job-2'']" by code_simp
  from worker_takes_oldest_queued_first [of _ _ exSystem3 exEnv] d p
  obtain s' where "processQueue exEnv exSystem3 = Some s'"
    "started s' = started exSystem3 @ map jobId (sort_key createdAt (queuedJobs (jobs exSystem3)))"
    by blast
  then have order: "map_option started (processQueue exEnv exSystem3)
      = Some [''job-3'', ''job-1'', ''job-2'']"
    by (simp add: st so)
  show ?thesis using a(1,2,3) tie order by simp
qed

subsection \<open>The state machine of a job\<close>

lemma processQueue_total:
  "distinct (map jobId (jobs s)) \<Longrightarrow> \<exists>s'. processQueue env s = Some s'"
proof (cases "isProcessing s")
  case True
  then show ?thesis by (simp add: processQueue_def)
next
  case False
  assume "distinct (map jobId (jobs s))"
  from processQueue_fifo [OF this False] show ?thesis by blast
qed

lemma atomicReachable_step: "atomicReachable env c \<Longrightarrow> atomicStep env c c' \<Longrightarrow> atomicReachable env c'"
  unfolding atomicReachable_def by (rule rtranclp.rtrancl_into_rtrancl)

lemma atomicReachable_steps: "atomicReachable env c \<Longrightarrow> (atomicStep env)\<^sup>*\<^sup>* c c' \<Longrightarrow> atomicReachable env c'"
  unfolding atomicReachable_def by (rule rtranclp_trans)

lemma atomicReachable_empty: "atomicReachable env (emptySystem, None)"
  by (simp add: atomicReachable_def)

lemma atomicReachable_processQueue:
  "atomicReachable env (s, None) \<Longrightarrow> processQueue env s = Some s' \<Longrightarrow> atomicReachable env (s', None)"
  by (rule atomicReachable_steps [OF _ processQueue_atomicSteps])

lemma atomicReachable_createJob:
  "atomicReachable env (s, w) \<Longrightarrow> ident \<notin> jobId ` set (jobs s) \<Longrightarrow>
   atomicReachable env (snd (createJob params ident now settings s), w)"
  by (rule atomicReachable_step [OF _ atomicStep.create])

lemma exSystem_ids:
  "jobId ` set (jobs emptySystem) = {}"
  "jobId ` set (jobs exSystem1) = {''job-1''}"
  "jobId ` set (jobs exSystem2) = {''job-1'', ''job-2''}"
  by (simp_all add: exSystem2_def exSystem1_def emptySystem_def createJob_def newJob_def Let_def
        insert_commute)

lemma atomicReachable_examples:
  "atomicReachable env (exSystem1, None)" "atomicReachable env (exSystem2, None)"
  "atomicReachable env (exSystem3, None)"
proof -
  show 1: "atomicReachable env (exSystem1, None)"
    unfolding exSystem1_def
    by (rule atomicReachable_createJob [OF atomicReachable_empty]) (simp add: exSystem_ids)
  show 2: "atomicReachable env (exSystem2, None)"
    unfolding exSystem2_def
    by (rule atomicReachable_createJob [OF 1]) (simp add: exSystem_ids)
  show "atomicReachable env (exSystem3, None)"
    unfolding exSystem3_def
    by (rule atomicReachable_createJob [OF 2]) (simp add: exSystem_ids)
qed

lemma exSelect3: "map_option jobId (selectNext (jobs exSystem3)) = Some ''job-3''"
  by code_simp

text \<open>
  Claim C3, as amended. In every schedule in which each read-modify-write of \<^verbatim>\<open>jobs.json\<close>
  (the push of \<^verbatim>\<open>createJob\<close>, each \<^verbatim>\<open>updateJob\<close> of the worker) is over before another
  begins, a move changes the status of a job in one of these ways only: a job that did not
  exist appears as \<^verbatim>\<open>queued\<close>, a \<^verbatim>\<open>queued\<close> job becomes \<^verbatim>\<open>running\<close>, a \<^verbatim>\<open>running\<close> job
  becomes \<^verbatim>\<open>completed\<close> or \<^verbatim>\<open>failed\<close>. So in such a schedule no job is completed or failed
  without having been running, and the status of a completed or failed job never changes.
  These schedules are schedules of the interleaving; every call of \<^verbatim>\<open>processQueue\<close> that
  returns is one of them, and so is every call of \<^verbatim>\<open>createJob\<close> with a fresh id.
\<close>

theorem status_moves_follow_state_machine:
  "(atomicReachable env c \<and> atomicStep env c c' \<longrightarrow>
      allowedMove (statusOf (fst c) ident) (statusOf (fst c') ident))
   \<and> (atomicReachable env c \<longrightarrow> reachable env (fst c, ctl (snd c)))
   \<and> (processQueue env s = Some s' \<longrightarrow> (atomicStep env)\<^sup>*\<^sup>* (s, None) (s', None))
   \<and> (ident' \<notin> jobId ` set (jobs s) \<longrightarrow>
        atomicStep env (s, w) (snd (createJob params ident' now settings s), w))"
  using atomic_move_step [OF atomicReachable_invariant] atomicReachable_reachable
    processQueue_atomicSteps atomicStep.create
  by blast

theorem status_moves_follow_state_machine_witness:
  "allowedMove (statusOf exSystem2 ''job-3'') (statusOf exSystem3 ''job-3'')
   \<and> statusOf exSystem3 ''job-3'' = Some Queued
   \<and> allowedMove (statusOf exSystem3 ''job-3'') (statusOf exStarted ''job-3'')
   \<and> statusOf exStarted ''job-3'' = Some Running
   \<and> allowedMove (statusOf exStarted ''job-3'') (statusOf exFinished ''job-3'')
   \<and> statusOf exFinished ''job-3'' = Some Completed
   \<and> (atomicStep exEnv)\<^sup>*\<^sup>* (exSystem3, None) (the (processQueue exEnv exSystem3), None)
   \<and> reachable exEnv (exStarted, ctl (Some exRunning))"
proof -
  let ?p = "exSystem3\<lparr> isProcessing := True \<rparr>"
  obtain nxt where nxt: "selectNext (jobs exSystem3) = Some nxt"
    using exSelect3 by auto
  have r2: "atomicReachable exEnv (exSystem2, None)" and r3: "atomicReachable exEnv (exSystem3, None)"
    by (rule atomicReachable_examples)+
  have s0: "atomicStep exEnv (exSystem2, None) (exSystem3, None)"
    unfolding exSystem3_def by (rule atomicStep.create) (simp add: exSystem_ids)
  have s1: "atomicStep exEnv (exSystem3, None) (?p, None)"
    by (rule atomicStep.enter) (simp add: exSystem3_def exSystem2_def exSystem1_def emptySystem_def createJob_def Let_def)
  have rp: "atomicReachable exEnv (?p, None)" by (rule atomicReachable_step [OF r3 s1])
  have s2: "atomicStep exEnv (?p, None) (exStarted, Some exRunning)"
  proof -
    have "atomicStep exEnv (?p, None)
        (startJob exEnv nxt ?p, Some (runningOf nxt (startClock (exEnv (jobId nxt)))))"
      by (rule atomicStep.start) (simp_all add: nxt)
    then show ?thesis by (simp add: exStarted_def exRunning_def nxt exEnv_def)
  qed
  have rs: "atomicReachable exEnv (exStarted, Some exRunning)" by (rule atomicReachable_step [OF rp s2])
  have s3: "atomicStep exEnv (exStarted, Some exRunning) (exFinished, None)"
    unfolding exFinished_def by (rule atomicStep.finish)
  have v: "statusOf exSystem3 ''job-3'' = Some Queued"
    "statusOf exStarted ''job-3'' = Some Running"
    "statusOf exFinished ''job-3'' = Some Completed"
    by code_simp+
  obtain s' where s': "processQueue exEnv exSystem3 = Some s'"
    using processQueue_total [of exSystem3 exEnv] by (auto simp: exJobs3)
  have m0: "allowedMove (statusOf exSystem2 ''job-3'') (statusOf exSystem3 ''job-3'')"
    using status_moves_follow_state_machine [of exEnv "(exSystem2, None)" "(exSystem3, None)"] r2 s0
    by simp
  have m1: "allowedMove (statusOf exSystem3 ''job-3'') (statusOf exStarted ''job-3'')"
  proof -
    have "allowedMove (statusOf exSystem3 ''job-3'') (statusOf ?p ''job-3'')"
      using status_moves_follow_state_machine [of exEnv "(exSystem3, None)" "(?p, None)"] r3 s1
      by simp
    moreover have "allowedMove (statusOf ?p ''job-3'') (statusOf exStarted ''job-3'')"
      using status_moves_follow_state_machine
        [of exEnv "(?p, None)" "(exStarted, Some exRunning)"] rp s2
      by simp
    moreover have "statusOf ?p ''job-3'' = statusOf exSystem3 ''job-3''"
      by (simp add: statusOf_def getJob_def)
    ultimately show ?thesis by simp
  qed
  have m2: "allowedMove (statusOf exStarted ''job-3'') (statusOf exFinished ''job-3'')"
    using status_moves_follow_state_machine
      [of exEnv "(exStarted, Some exRunning)" "(exFinished, None)"] rs s3
    by simp
  have m3: "(atomicStep exEnv)\<^sup>*\<^sup>* (exSystem3, None) (the (processQueue exEnv exSystem3), None)"
    using status_moves_follow_state_machine [of exEnv _ _ _ exSystem3 s'] s' by simp
  have m4: "reachable exEnv (exStarted, ctl (Some exRunning))"
    using status_moves_follow_state_machine [of exEnv "(exStarted, Some exRunning)"] rs by simp
  show ?thesis using m0 m1 m2 m3 m4 v by simp
qed

text \<open>
  The claim as written speaks of every schedule of the interleaving, and there it fails:
  a job that is \<^verbatim>\<open>completed\<close> becomes \<^verbatim>\<open>running\<close> again. The first job is submitted and
  the worker marks it \<^verbatim>\<open>running\<close> and builds it; the \<^verbatim>\<open>updateJob\<close> of the worker and a
  second call of \<^verbatim>\<open>createJob\<close> both read \<^verbatim>\<open>jobs.json\<close> with the first job \<^verbatim>\<open>running\<close>;
  the worker writes the job back \<^verbatim>\<open>completed\<close>; then the second call writes the array it
  read, with its job pushed, and the first job is \<^verbatim>\<open>running\<close> again.
\<close>

theorem completed_job_is_running_again_counterexample:
  "reachable exEnv (the (run exEnv exRace (emptySystem, idleControl)))
   \<and> step exEnv (the (run exEnv exRace (emptySystem, idleControl)))
         (the (run exEnv (exRace @ [CreateWrite 0]) (emptySystem, idleControl)))
   \<and> statusOf (fst (the (run exEnv exRace (emptySystem, idleControl)))) ''job-1''
       = Some Completed
   \<and> statusOf (fst (the (run exEnv (exRace @ [CreateWrite 0]) (emptySystem, idleControl))))
         ''job-1'' = Some Running
   \<and> \<not> allowedMove
         (statusOf (fst (the (run exEnv exRace (emptySystem, idleControl)))) ''job-1'')
         (statusOf (fst (the (run exEnv (exRace @ [CreateWrite 0]) (emptySystem, idleControl))))
            ''job-1'')"
proof -
  have "\<not> Option.is_none (run exEnv exRace (emptySystem, idleControl))" by code_simp
  then obtain c where c: "run exEnv exRace (emptySystem, idleControl) = Some c"
    by (auto simp: Option.is_none_def)
  have "\<not> Option.is_none (run exEnv (exRace @ [CreateWrite 0]) (emptySystem, idleControl))"
    by code_simp
  then obtain c' where c': "run exEnv (exRace @ [CreateWrite 0]) (emptySystem, idleControl) = Some c'"
    by (auto simp: Option.is_none_def)
  have r: "reachable exEnv c" by (rule reachable_run [OF reachable_empty c])
  have "move exEnv (CreateWrite 0) c = Some c'"
    using c' by (simp add: run_append c split: option.splits)
  then have st: "step exEnv c c'" by (rule stepI)
  have v: "statusOf (fst (the (run exEnv exRace (emptySystem, idleControl)))) ''job-1''
       = Some Completed"
    "statusOf (fst (the (run exEnv (exRace @ [CreateWrite 0]) (emptySystem, idleControl))))
         ''job-1'' = Some Running"
    by code_simp+
  show ?thesis using r st v by (simp add: c c' allowedMove_def)
qed

subsection \<open>Artifact and error against status\<close>

lemma exDone:
  "map status (jobs (the (processQueue exEnv exSystem3))) = [Completed, Failed, Completed]"
  "map (\<lambda>job. artifact job \<noteq> None) (jobs (the (processQueue exEnv exSystem3)))
     = [True, False, True]"
  "map (\<lambda>job. error job \<noteq> None) (jobs (the (processQueue exEnv exSystem3)))
     = [False, True, False]"
  by code_simp+

lemma reachable_examples:
  "reachable env (exSystem1, idleControl)" "reachable env (exSystem2, idleControl)"
  "reachable env (exSystem3, idleControl)"
proof -
  have r: "\<And>s. set (recordList (s, idleControl)) = set (jobs s)"
    by (simp add: recordList_def idleControl_def)
  show 1: "reachable env (exSystem1, idleControl)"
    unfolding exSystem1_def
    by (rule reachable_createJob [OF reachable_empty]) (simp add: r exSystem_ids)
  show 2: "reachable env (exSystem2, idleControl)"
    unfolding exSystem2_def
    by (rule reachable_createJob [OF 1]) (simp add: r exSystem_ids)
  show "reachable env (exSystem3, idleControl)"
    unfolding exSystem3_def
    by (rule reachable_createJob [OF 2]) (simp add: r exSystem_ids)
qed

lemma exRaced_reachable: "reachable exEnv exRaced"
proof -
  have "\<not> Option.is_none (run exEnv (exRace @ [CreateWrite 0]) (emptySystem, idleControl))"
    by code_simp
  then obtain c where "run exEnv (exRace @ [CreateWrite 0]) (emptySystem, idleControl) = Some c"
    by (auto simp: Option.is_none_def)
  then show ?thesis using reachable_run [OF reachable_empty] by (simp add: exRaced_def)
qed

text \<open>
  Claim C4. For every job of a store reachable from the empty store through \<^verbatim>\<open>createJob\<close>
  and \<^verbatim>\<open>processQueue\<close>, however the calls of \<^verbatim>\<open>createJob\<close> and the worker interleave,
  the \<^verbatim>\<open>artifact\<close> field is present if and only if the status is \<^verbatim>\<open>completed\<close>, and the
  \<^verbatim>\<open>error\<close> field is present if and only if the status is \<^verbatim>\<open>failed\<close>. A call of
  \<^verbatim>\<open>createJob\<close> with a fresh id and a call of \<^verbatim>\<open>processQueue\<close> that returns lead from a
  reachable store to a reachable store.
\<close>

theorem artifact_and_error_follow_status:
  "(reachable env c \<and> job \<in> set (jobs (fst c)) \<longrightarrow>
      (artifact job \<noteq> None) = (status job = Completed)
      \<and> (error job \<noteq> None) = (status job = Failed))
   \<and> (reachable env (s, k) \<and> ident \<notin> jobId ` set (recordList (s, k)) \<longrightarrow>
        reachable env (snd (createJob params ident now settings s), k))
   \<and> (reachable env (s, k) \<and> worker k = Idle \<and> processQueue env s = Some s' \<longrightarrow>
        reachable env (s', k))"
proof (intro conjI impI)
  assume a: "reachable env c \<and> job \<in> set (jobs (fst c))"
  then have "list_all consistent (recordList c)"
    using reachable_invariant [of env c] by (simp add: invariant_def)
  with a have "consistent job" by (simp add: list_all_iff recordList_def)
  then show "(artifact job \<noteq> None) = (status job = Completed)"
    and "(error job \<noteq> None) = (status job = Failed)"
    by (simp_all add: consistent_def)
next
  assume "reachable env (s, k) \<and> ident \<notin> jobId ` set (recordList (s, k))"
  then show "reachable env (snd (createJob params ident now settings s), k)"
    using reachable_createJob by blast
next
  assume "reachable env (s, k) \<and> worker k = Idle \<and> processQueue env s = Some s'"
  then show "reachable env (s', k)" using reachable_processQueue by blast
qed

theorem artifact_and_error_follow_status_witness:
  "reachable exEnv (the (processQueue exEnv exSystem3), idleControl)
   \<and> map status (jobs (the (processQueue exEnv exSystem3))) = [Completed, Failed, Completed]
   \<and> list_all (\<lambda>job. (artifact job \<noteq> None) = (status job = Completed)
                     \<and> (error job \<noteq> None) = (status job = Failed))
        (jobs (the (processQueue exEnv exSystem3)))
   \<and> reachable exEnv exRaced
   \<and> map status (jobs (fst exRaced)) = [Running, Queued]
   \<and> list_all (\<lambda>job. (artifact job \<noteq> None) = (status job = Completed)
                     \<and> (error job \<noteq> None) = (status job = Failed))
        (jobs (fst exRaced))"
proof -
  obtain s' where s': "processQueue exEnv exSystem3 = Some s'"
    using processQueue_total [of exSystem3 exEnv] by (auto simp: exJobs3)
  have i: "worker idleControl = Idle" by (simp add: idleControl_def)
  have r: "reachable exEnv (s', idleControl)"
    using artifact_and_error_follow_status [of exEnv _ _ exSystem3 idleControl _ _ _ _ s']
      reachable_examples(3) [of exEnv] s' i
    by blast
  have "\<forall>job \<in> set (jobs s'). (artifact job \<noteq> None) = (status job = Completed)
                     \<and> (error job \<noteq> None) = (status job = Failed)"
    using artifact_and_error_follow_status [of exEnv "(s', idleControl)"] r by simp
  moreover have "\<forall>job \<in> set (jobs (fst exRaced)). (artifact job \<noteq> None) = (status job = Completed)
                     \<and> (error job \<noteq> None) = (status job = Failed)"
    using artifact_and_error_follow_status [of exEnv exRaced] exRaced_reachable by simp
  moreover have "map status (jobs (fst exRaced)) = [Running, Queued]" by code_simp
  ultimately show ?thesis using r s' exDone(1) exRaced_reachable by (simp add: list_all_iff)
qed

subsection \<open>The staging directory after a terminal transition\<close>

text \<open>
  The success branch of an iteration removes the staging directory of its job; the
  \<^verbatim>\<open>catch\<close> branch leaves the directories as they are.
\<close>

lemma finishJob_queue:
  "queue (finishJob env rj s) =
     (case buildJob (env (jobId rj)) rj s of
        Inr result \<Rightarrow> (queue s)(jobId rj := None)
      | Inl message \<Rightarrow> queue s)"
  by (cases "buildJob (env (jobId rj)) rj s") (simp_all add: finishJob_def Let_def)

text \<open>
  Claim C2 says that the staging directory of a job is deleted after the job has become
  \<^verbatim>\<open>completed\<close> or \<^verbatim>\<open>failed\<close>, whatever the outcome. The code deletes it for a completed
  job only. Here the worker processes the three example submissions; the build of the second
  is that of a source bundle with no Android SDK configured. The job ends \<^verbatim>\<open>failed\<close>, its
  error names the variables that are not set, and its staging directory still holds
  \<^verbatim>\<open>input.zip\<close>; the directory of the first job, which ends \<^verbatim>\<open>completed\<close>, is gone.
\<close>

theorem failed_job_keeps_staging_directory:
  "(\<exists>s'. processQueue exEnv exSystem3 = Some s')
   \<and> statusOf (the (processQueue exEnv exSystem3)) ''job-2'' = Some Failed
   \<and> map_option error (getJob (the (processQueue exEnv exSystem3)) ''job-2'')
       = Some (Some (''ANDROID_HOME or ANDROID_SDK_ROOT is not set. ''
                     @ ''Install Android SDK and set the environment variable.''))
   \<and> map_option inputZip (queue (the (processQueue exEnv exSystem3)) ''job-2'')
       = Some [80, 75, 3, 4]
   \<and> statusOf (the (processQueue exEnv exSystem3)) ''job-1'' = Some Completed
   \<and> map_option inputZip (queue (the (processQueue exEnv exSystem3)) ''job-1'') = None"
proof -
  have "\<exists>s'. processQueue exEnv exSystem3 = Some s'"
    by (rule processQueue_total) (simp add: exJobs3)
  moreover have
    "statusOf (the (processQueue exEnv exSystem3)) ''job-2'' = Some Failed
     \<and> map_option error (getJob (the (processQueue exEnv exSystem3)) ''job-2'')
         = Some (Some (''ANDROID_HOME or ANDROID_SDK_ROOT is not set. ''
                       @ ''Install Android SDK and set the environment variable.''))
     \<and> map_option inputZip (queue (the (processQueue exEnv exSystem3)) ''job-2'')
         = Some [80, 75, 3, 4]
     \<and> statusOf (the (processQueue exEnv exSystem3)) ''job-1'' = Some Completed
     \<and> map_option inputZip (queue (the (processQueue exEnv exSystem3)) ''job-1'') = None"
    by code_simp
  ultimately show ?thesis by blast
qed

section \<open>Properties of the build pipeline\<close>

text \<open>
  Claim C8. Once signing has succeeded (the signer has run, its output has been found and
  read), a failure of the verification run, or a report in which no hash is found, does
  not fail the build: the pipeline returns the signed bytes and the name of the signed
  file, with the hash set to the sentinel for an unknown hash, the string \<^verbatim>\<open>Unknown\<close>.
\<close>

theorem hash_extraction_never_fails_the_build:
  "signApk w options = Inr sg
   \<and> ((\<exists>err. exec w (verifyCommand sg) = Inl err)
      \<or> (\<exists>out. exec w (verifyCommand sg) = Inr out \<and> matchSha out = None))
   \<longrightarrow> runAndroidBuild w options
         = Inr \<lparr> apkBuffer = sg_buffer sg, apkName = sg_name sg, sha256 = ''Unknown'' \<rparr>"
  by (auto simp: runAndroidBuild_def andThen_def extractSha_def)

theorem hash_extraction_never_fails_the_build_witness:
  "runAndroidBuild exWorldVerifyFails exOptions
     = Inr \<lparr> apkBuffer = [80, 75, 3, 4, 20], apkName = ''app-aligned-debugSigned.apk'',
             sha256 = ''Unknown'' \<rparr>
   \<and> runAndroidBuild exWorldNoHash exOptions
     = Inr \<lparr> apkBuffer = [80, 75, 3, 4, 20], apkName = ''app-aligned-debugSigned.apk'',
             sha256 = ''Unknown'' \<rparr>"
proof -
  have s1: "signApk exWorldVerifyFails exOptions = Inr exSigned" by code_simp
  have v1: "exec exWorldVerifyFails (verifyCommand exSigned)
      = Inl ''Command failed: java -jar /opt/signer.jar -y''" by code_simp
  have s2: "signApk exWorldNoHash exOptions = Inr exSigned" by code_simp
  have v2: "exec exWorldNoHash (verifyCommand exSigned) = Inr ''Verified. SHA-256 digest omitted''"
    by code_simp
  have m2: "matchSha ''Verified. SHA-256 digest omitted'' = None" by code_simp
  have f: "sg_buffer exSigned = [80, 75, 3, 4, 20]" "sg_name exSigned = ''app-aligned-debugSigned.apk''"
    by (simp_all add: exSigned_def)
  have a: "runAndroidBuild exWorldVerifyFails exOptions
     = Inr \<lparr> apkBuffer = sg_buffer exSigned, apkName = sg_name exSigned, sha256 = ''Unknown'' \<rparr>"
    using hash_extraction_never_fails_the_build [of exWorldVerifyFails exOptions exSigned] s1 v1
    by blast
  have b: "runAndroidBuild exWorldNoHash exOptions
     = Inr \<lparr> apkBuffer = sg_buffer exSigned, apkName = sg_name exSigned, sha256 = ''Unknown'' \<rparr>"
    using hash_extraction_never_fails_the_build [of exWorldNoHash exOptions exSigned] s2 v2 m2
    by blast
  show ?thesis using a b by (simp add: f)
qed

section \<open>Keystores without credentials\<close>







end
